theory Spec2Isabelle
  imports Main "HOL-Library.Word" "HOL-Library.Sublist"
begin

section \<open>fspopulate: a shallow embedding of \<^verbatim>\<open>fspopulate.c\<close>\<close>

text \<open>
  The program creates a two-level tree \<^verbatim>\<open>ROOT/dirNNNNNN/fileNNNNNN\<close> whose file sizes sum
  to a requested total.  The embedding follows the C source function by function.

  \<^item> The C struct \<^verbatim>\<open>fspopulate_t\<close> is the record \<open>fspopulate_t\<close>.  Its \<^verbatim>\<open>int\<close> and
    \<^verbatim>\<open>off_t\<close> fields are mathematical integers; every value the loop \<^emph>\<open>computes\<close> is
    checked against the range of its C type (\<^verbatim>\<open>int\<close> is 32 bits, \<^verbatim>\<open>off_t\<close> and
    \<^verbatim>\<open>ssize_t\<close> are 64 bits, the Makefile compiles with \<^verbatim>\<open>-m64\<close>), and a signed
    overflow or a remainder by zero, which C leaves undefined, ends the run with the
    outcome \<open>Undef\<close>.
  \<^item> The file system is a record of the existing directories, the contents of the
    existing files, and the list of system calls made so far.
  \<^item> Whether a system call fails, and how many bytes a \<^verbatim>\<open>write\<close> transfers, is decided
    by the environment \<open>sysenv\<close>, which is asked with the number of calls made so far
    and the path.  \<^verbatim>\<open>PATH_MAX\<close> comes from a system header and is a field of the
    environment too.
  \<^item> The global \<^verbatim>\<open>fsp_buf\<close> is passed explicitly as \<open>buf\<close>; \<^verbatim>\<open>sizeof (fsp_buf)\<close> is its
    length.  \<^verbatim>\<open>srand\<close> and \<^verbatim>\<open>rand\<close> belong to the C library and are parameters of
    \<open>init_buffer\<close>.
  \<^item> The diagnostic \<^verbatim>\<open>fprintf\<close> and \<^verbatim>\<open>warn\<close> calls have no effect on the tree and are
    left out.
\<close>

subsection \<open>Data\<close>

type_synonym byte = "8 word"

record fspopulate_t =
  fsp_path :: string
  fsp_totsize :: int
  fsp_nbulk :: int
  fsp_bulksize :: int
  fsp_nsubdirs :: int
  fsp_dryrun :: bool

datatype event =
    Mkdirp string
  | Open string
  | Fstat string
  | Write string int int
  | Close string

record world =
  dirs :: "string set"
  files :: "string \<Rightarrow> byte list option"
  syslog :: "event list"

record sysenv =
  path_max :: nat
  mkdirp_fails :: "nat \<Rightarrow> string \<Rightarrow> bool"
  open_fails :: "nat \<Rightarrow> string \<Rightarrow> bool"
  fstat_fails :: "nat \<Rightarrow> string \<Rightarrow> bool"
  write_result :: "nat \<Rightarrow> string \<Rightarrow> int \<Rightarrow> int"

datatype errno = EEXIST | EOTHER

text \<open>
  How a run ends: \<open>Ok\<close> is \<^verbatim>\<open>return (0)\<close>, \<open>Fail\<close> is \<^verbatim>\<open>return (-1)\<close>, \<open>Abort\<close> is a
  failed \<^verbatim>\<open>assert\<close> (the Makefile does not define \<^verbatim>\<open>NDEBUG\<close>), \<open>Undef\<close> is undefined
  behaviour of C arithmetic.
\<close>

datatype outcome = Ok | Fail | Abort | Undef

datatype exit_status = Exited int | Aborted | Undefined

definition INT_MAX :: int where
  "INT_MAX = 2147483647"

definition OFF_MAX :: int where
  "OFF_MAX = 9223372036854775807"

definition OFF_MIN :: int where
  "OFF_MIN = - 9223372036854775808"

definition in_off_t :: "int \<Rightarrow> bool" where
  "in_off_t x \<longleftrightarrow> OFF_MIN \<le> x \<and> x \<le> OFF_MAX"

text \<open>The macro \<^verbatim>\<open>#define MIN(a, b) ((a < b) ? (a) : (b))\<close>.\<close>

definition MINc :: "int \<Rightarrow> int \<Rightarrow> int" where
  "MINc a b = (if a < b then a else b)"

text \<open>The operator \<^verbatim>\<open>%\<close> of C: the remainder has the sign of the dividend.\<close>

definition c_rem :: "int \<Rightarrow> int \<Rightarrow> int" where
  "c_rem a b = sgn a * (\<bar>a\<bar> mod \<bar>b\<bar>)"

subsection \<open>Path names\<close>

definition digit_char :: "nat \<Rightarrow> char" where
  "digit_char d = char_of (48 + d)"

fun dec_digits :: "nat \<Rightarrow> string" where
  "dec_digits n =
     (if n < 10 then [digit_char n] else dec_digits (n div 10) @ [digit_char (n mod 10)])"

declare dec_digits.simps [simp del]

definition zero_pad :: "nat \<Rightarrow> string \<Rightarrow> string" where
  "zero_pad k s = replicate (k - length s) (CHR ''0'') @ s"

text \<open>The conversion \<^verbatim>\<open>%06d\<close> of \<^verbatim>\<open>printf\<close>: at least six characters, sign included.\<close>

definition fmt06d :: "int \<Rightarrow> string" where
  "fmt06d n =
     (if n < 0 then CHR ''-'' # zero_pad 5 (dec_digits (nat (- n)))
      else zero_pad 6 (dec_digits (nat n)))"

text \<open>\<^verbatim>\<open>snprintf\<close> into a buffer of \<open>n\<close> bytes keeps at most \<open>n - 1\<close> characters.\<close>

definition snprintf :: "nat \<Rightarrow> string \<Rightarrow> string" where
  "snprintf n s = take (n - 1) s"

definition dir_path :: "sysenv \<Rightarrow> fspopulate_t \<Rightarrow> int \<Rightarrow> string" where
  "dir_path e c di = snprintf (path_max e) (fsp_path c @ ''/dir'' @ fmt06d di)"

definition file_path :: "sysenv \<Rightarrow> fspopulate_t \<Rightarrow> int \<Rightarrow> int \<Rightarrow> string" where
  "file_path e c di bi =
     snprintf (path_max e) (fsp_path c @ ''/dir'' @ fmt06d di @ ''/file'' @ fmt06d bi)"

subsection \<open>System calls\<close>

definition log_event :: "event \<Rightarrow> world \<Rightarrow> world" where
  "log_event ev w = w\<lparr>syslog := syslog w @ [ev]\<rparr>"

definition file_size :: "world \<Rightarrow> string \<Rightarrow> int" where
  "file_size w p = (case files w p of None \<Rightarrow> 0 | Some b \<Rightarrow> int (length b))"

text \<open>
  \<^verbatim>\<open>mkdirp\<close> returns 0 when it created the directory and -1 otherwise, with \<^verbatim>\<open>errno\<close>
  \<^verbatim>\<open>EEXIST\<close> when the directory was there already.
\<close>

definition sys_mkdirp :: "sysenv \<Rightarrow> string \<Rightarrow> world \<Rightarrow> int \<times> errno \<times> world" where
  "sys_mkdirp e p w =
     (let w1 = log_event (Mkdirp p) w in
      if mkdirp_fails e (length (syslog w)) p then (- 1, EOTHER, w1)
      else if p \<in> dirs w then (- 1, EEXIST, w1)
      else (0, EOTHER, w1\<lparr>dirs := insert p (dirs w)\<rparr>))"

text \<open>
  \<^verbatim>\<open>open(pathname, O_APPEND | O_WRONLY | O_CREAT, 0666)\<close>: an existing file keeps its
  contents, a missing one is created empty.  The descriptor is identified with the path.
\<close>

definition sys_open :: "sysenv \<Rightarrow> string \<Rightarrow> world \<Rightarrow> bool \<times> world" where
  "sys_open e p w =
     (let w1 = log_event (Open p) w in
      if open_fails e (length (syslog w)) p then (False, w1)
      else (True, w1\<lparr>files := (files w)(p \<mapsto> (case files w p of None \<Rightarrow> [] | Some b \<Rightarrow> b))\<rparr>))"

text \<open>
  \<^verbatim>\<open>fstat\<close> yields \<^verbatim>\<open>st_size\<close>; it fails (\<^verbatim>\<open>EOVERFLOW\<close>) on a size that \<^verbatim>\<open>off_t\<close> cannot
  hold.
\<close>

definition sys_fstat :: "sysenv \<Rightarrow> string \<Rightarrow> world \<Rightarrow> int option \<times> world" where
  "sys_fstat e p w =
     (let w1 = log_event (Fstat p) w in
      if fstat_fails e (length (syslog w)) p \<or> OFF_MAX < file_size w p then (None, w1)
      else (Some (file_size w p), w1))"

text \<open>
  \<^verbatim>\<open>write(fd, fsp_buf, ntowrite)\<close> on a descriptor opened with \<^verbatim>\<open>O_APPEND\<close>: it returns -1,
  or the number of bytes, at most \<open>ntowrite\<close>, that it appended from the start of the
  buffer.
\<close>

definition sys_write :: "sysenv \<Rightarrow> byte list \<Rightarrow> string \<Rightarrow> int \<Rightarrow> world \<Rightarrow> int \<times> world" where
  "sys_write e buf p ntowrite w =
     (let r = write_result e (length (syslog w)) p ntowrite;
          result = (if r < 0 then - 1 else MINc r ntowrite);
          w1 = log_event (Write p ntowrite result) w
      in if result \<le> 0 then (result, w1)
         else (result,
               w1\<lparr>files := (files w)(p \<mapsto>
                     (case files w p of None \<Rightarrow> [] | Some b \<Rightarrow> b) @ take (nat result) buf)\<rparr>))"

definition sys_close :: "string \<Rightarrow> world \<Rightarrow> world" where
  "sys_close p w = log_event (Close p) w"

subsection \<open>\<^verbatim>\<open>init_buffer\<close>\<close>

fun init_buffer_loop :: "('g \<Rightarrow> int \<times> 'g) \<Rightarrow> 'g \<Rightarrow> nat \<Rightarrow> byte list" where
  "init_buffer_loop rnd g 0 = []"
| "init_buffer_loop rnd g (Suc n) =
     (case rnd g of (r, g') \<Rightarrow> word_of_int r # init_buffer_loop rnd g' n)"

definition init_buffer :: "(nat \<Rightarrow> 'g) \<Rightarrow> ('g \<Rightarrow> int \<times> 'g) \<Rightarrow> nat \<Rightarrow> byte list" where
  "init_buffer srand rnd bufsz = init_buffer_loop rnd (srand 1) bufsz"

subsection \<open>\<^verbatim>\<open>populate_file\<close>\<close>

function populate_loop ::
  "sysenv \<Rightarrow> byte list \<Rightarrow> string \<Rightarrow> int \<Rightarrow> int \<Rightarrow> world \<Rightarrow> outcome \<times> world" where
  "populate_loop e buf fd nbytes nwritten w =
     (if nwritten < nbytes then
        (let ntowrite = MINc (nbytes - nwritten) (int (length buf)) in
         case sys_write e buf fd ntowrite w of (result, w1) \<Rightarrow>
           if result = 0 then (Abort, w1)
           else if result = - 1 then (Fail, w1)
           else populate_loop e buf fd nbytes (nwritten + result) w1)
      else (Ok, w))"
  by pat_completeness auto
termination
  by (relation "measure (\<lambda>(e, buf, fd, nbytes, nwritten, w). nat (nbytes - nwritten))")
    (auto simp: sys_write_def Let_def MINc_def split: if_splits)

declare populate_loop.simps [simp del]

definition populate_file :: "sysenv \<Rightarrow> byte list \<Rightarrow> string \<Rightarrow> int \<Rightarrow> world \<Rightarrow> outcome \<times> world" where
  "populate_file e buf fd nbytes w = populate_loop e buf fd nbytes 0 w"

subsection \<open>\<^verbatim>\<open>fspopulate\<close>\<close>

text \<open>
  Lines 167 to 178 of the loop: the directory of the file is created only while
  \<open>bi < fsp_nsubdirs\<close>.  The result says whether the iteration returns -1 here.
\<close>

definition loop_mkdir ::
  "fspopulate_t \<Rightarrow> sysenv \<Rightarrow> world \<Rightarrow> int \<Rightarrow> int \<Rightarrow> bool \<times> world" where
  "loop_mkdir c e w di bi =
     (if bi < fsp_nsubdirs c then
        (case sys_mkdirp e (dir_path e c di) w of
           (rv, en, w1) \<Rightarrow> (rv = - 1 \<and> en \<noteq> EEXIST, w1))
      else (False, w))"

text \<open>Lines 195 to 197: the size the file of this iteration is expected to have.\<close>

definition expectedsz :: "fspopulate_t \<Rightarrow> int \<Rightarrow> int \<Rightarrow> int" where
  "expectedsz c totwritten bi =
     MINc (if bi < fsp_nbulk c then fsp_bulksize c else 10 * 1024 * 1024)
       (fsp_totsize c - totwritten)"

text \<open>
  One iteration of the \<^verbatim>\<open>while\<close> loop.  \<open>Inl\<close> leaves the function with an outcome,
  \<open>Inr\<close> carries the file system and the new \<open>totwritten\<close>, \<open>di\<close> and \<open>bi\<close> into the next
  test of the loop condition.
\<close>

definition loop_body ::
  "fspopulate_t \<Rightarrow> sysenv \<Rightarrow> byte list \<Rightarrow> world \<Rightarrow> int \<Rightarrow> int \<Rightarrow> int \<Rightarrow>
     (outcome \<times> world) + (world \<times> int \<times> int \<times> int)" where
  "loop_body c e buf w totwritten di bi =
     (case loop_mkdir c e w di bi of
        (True, w1) \<Rightarrow> Inl (Fail, w1)
      | (False, w1) \<Rightarrow>
          (let pathname = file_path e c di bi in
           if fsp_nsubdirs c = 0 \<or> INT_MAX < di + 1 then Inl (Undef, w1)
           else
             (let di' = c_rem (di + 1) (fsp_nsubdirs c) in
              (case sys_open e pathname w1 of
                 (False, w2) \<Rightarrow> Inl (Fail, w2)
               | (True, w2) \<Rightarrow>
                   (case sys_fstat e pathname w2 of
                      (None, w3) \<Rightarrow> Inl (Fail, sys_close pathname w3)
                    | (Some st_size, w3) \<Rightarrow>
                        (if \<not> in_off_t (fsp_totsize c - totwritten) then Inl (Undef, w3)
                         else
                           (let expsz = expectedsz c totwritten bi in
                            if \<not> in_off_t (expsz - st_size) then Inl (Undef, w3)
                            else
                              (case populate_file e buf pathname (expsz - st_size) w3 of
                                 (Ok, w4) \<Rightarrow>
                                   (let w5 = sys_close pathname w4 in
                                    if \<not> in_off_t (totwritten + expsz) \<or> INT_MAX < bi + 1
                                    then Inl (Undef, w5)
                                    else Inr (w5, totwritten + expsz, di', bi + 1))
                               | (Fail, w4) \<Rightarrow> Inl (Fail, sys_close pathname w4)
                               | (err, w4) \<Rightarrow> Inl (err, w4)))))))))"

function fsp_loop ::
  "fspopulate_t \<Rightarrow> sysenv \<Rightarrow> byte list \<Rightarrow> world \<Rightarrow> int \<Rightarrow> int \<Rightarrow> int \<Rightarrow>
     outcome \<times> world \<times> int \<times> int \<times> int" where
  "fsp_loop c e buf w totwritten di bi =
     (if totwritten < fsp_totsize c then
        (case loop_body c e buf w totwritten di bi of
           Inl (r, w') \<Rightarrow> (r, w', totwritten, di, bi)
         | Inr (w', tw', di', bi') \<Rightarrow> fsp_loop c e buf w' tw' di' bi')
      else (Ok, w, totwritten, di, bi))"
  by pat_completeness auto
termination
proof (relation "measures
    [\<lambda>(c, e, buf, w, tw, di, bi). nat (fsp_nbulk c - bi),
     \<lambda>(c, e, buf, w, tw, di, bi). nat (fsp_totsize c - tw)]", goal_cases)
  case 1
  show ?case by simp
next
  case (2 c e buf w totwritten di bi x2 w' x2a tw' x2b di' bi')
  then have "loop_body c e buf w totwritten di bi = Inr (w', tw', di', bi')"
    by simp
  then have "tw' = totwritten + expectedsz c totwritten bi \<and> bi' = bi + 1"
    by (auto simp: loop_body_def Let_def
        split: prod.splits bool.splits option.splits outcome.splits if_splits)
  with 2(1) show ?case
    by (auto simp: expectedsz_def MINc_def split: if_splits)
qed

declare fsp_loop.simps [simp del]

definition fspopulate ::
  "fspopulate_t \<Rightarrow> sysenv \<Rightarrow> byte list \<Rightarrow> world \<Rightarrow> outcome \<times> world" where
  "fspopulate c e buf w =
     (if fsp_dryrun c then (Ok, w)
      else
        (case sys_mkdirp e (fsp_path c) w of
           (rv, en, w1) \<Rightarrow>
             if rv \<noteq> 0 \<and> en \<noteq> EEXIST then (Fail, w1)
             else (case fsp_loop c e buf w1 0 0 0 of (r, w', tw', di', bi') \<Rightarrow> (r, w'))))"

subsection \<open>\<^verbatim>\<open>main\<close>\<close>

text \<open>
  The policy that \<^verbatim>\<open>main\<close> hardcodes, for the size \<open>totsz\<close> that it parsed (an
  \<^verbatim>\<open>unsigned long long\<close>) and the path argument.  \<^verbatim>\<open>strlcpy\<close> cuts the path to the
  size of \<^verbatim>\<open>fsp_path\<close>, which is \<^verbatim>\<open>PATH_MAX\<close>; the two sizes are converted to the signed
  \<^verbatim>\<open>off_t\<close>.
\<close>

definition main_config :: "sysenv \<Rightarrow> 64 word \<Rightarrow> string \<Rightarrow> fspopulate_t" where
  "main_config e totsz path =
     \<lparr>fsp_path = take (path_max e - 1) path,
      fsp_totsize = sint totsz,
      fsp_nbulk = 768,
      fsp_bulksize = sint (totsz div 1024),
      fsp_nsubdirs = 256,
      fsp_dryrun = False\<rparr>"

text \<open>\<^verbatim>\<open>return (rv == 0 ? EXIT_SUCCESS : EXIT_FAILURE)\<close>, when \<^verbatim>\<open>fspopulate\<close> returns.\<close>

definition main_exit :: "outcome \<Rightarrow> exit_status" where
  "main_exit r =
     (case r of Ok \<Rightarrow> Exited 0 | Fail \<Rightarrow> Exited 1 | Abort \<Rightarrow> Aborted | Undef \<Rightarrow> Undefined)"

definition main ::
  "(nat \<Rightarrow> 'g) \<Rightarrow> ('g \<Rightarrow> int \<times> 'g) \<Rightarrow> sysenv \<Rightarrow> 64 word \<Rightarrow> string \<Rightarrow> world \<Rightarrow>
     exit_status \<times> world" where
  "main srand rnd e totsz path w =
     (let c = main_config e totsz path;
          buf = init_buffer srand rnd (10 * 1024 * 1024)
      in case fspopulate c e buf w of (r, w') \<Rightarrow> (main_exit r, w'))"

section \<open>Auxiliary notions for stating the properties\<close>

definition content :: "world \<Rightarrow> string \<Rightarrow> byte list" where
  "content w p = (case files w p of None \<Rightarrow> [] | Some b \<Rightarrow> b)"

fun write_total :: "event list \<Rightarrow> int" where
  "write_total [] = 0"
| "write_total (Write p n r # evs) = (if 0 < r then r else 0) + write_total evs"
| "write_total (ev # evs) = write_total evs"

fun is_write :: "event \<Rightarrow> bool" where
  "is_write (Write p n r) = True"
| "is_write ev = False"

definition new_events :: "world \<Rightarrow> world \<Rightarrow> event list" where
  "new_events w w' = drop (length (syslog w)) (syslog w')"

definition body_world :: "(outcome \<times> world) + (world \<times> int \<times> int \<times> int) \<Rightarrow> world" where
  "body_world x = (case x of Inl (r, w) \<Rightarrow> w | Inr (w, s) \<Rightarrow> w)"

function plan_from :: "fspopulate_t \<Rightarrow> int \<Rightarrow> int \<Rightarrow> int \<Rightarrow> (int \<times> int \<times> int) list" where
  "plan_from c totwritten di bi =
     (if totwritten < fsp_totsize c then
        (di, bi, expectedsz c totwritten bi) #
          plan_from c (totwritten + expectedsz c totwritten bi)
            (c_rem (di + 1) (fsp_nsubdirs c)) (bi + 1)
      else [])"
  by pat_completeness auto
termination
  by (relation "measures
    [\<lambda>(c, tw, di, bi). nat (fsp_nbulk c - bi),
     \<lambda>(c, tw, di, bi). nat (fsp_totsize c - tw)]")
    (auto simp: expectedsz_def MINc_def split: if_splits)

declare plan_from.simps [simp del]

definition extends :: "world \<Rightarrow> world \<Rightarrow> bool" where
  "extends w w' \<longleftrightarrow>
     dirs w \<subseteq> dirs w'
     \<and> (\<forall>q b. files w q = Some b \<longrightarrow> (\<exists>a. files w' q = Some (b @ a)))
     \<and> (\<exists>evs. syslog w' = syslog w @ evs)"

fun written_bytes :: "byte list \<Rightarrow> event list \<Rightarrow> byte list" where
  "written_bytes buf [] = []"
| "written_bytes buf (Write p n r # evs) = take (nat r) buf @ written_bytes buf evs"
| "written_bytes buf (ev # evs) = written_bytes buf evs"

definition ex_env :: sysenv where
  "ex_env = \<lparr>path_max = 1024, mkdirp_fails = (\<lambda>t p. False), open_fails = (\<lambda>t p. False),
     fstat_fails = (\<lambda>t p. False), write_result = (\<lambda>t p n. n)\<rparr>"

definition ex_world :: world where
  "ex_world = \<lparr>dirs = {}, files = (\<lambda>p. None), syslog = []\<rparr>"

definition ex_config :: fspopulate_t where
  "ex_config = \<lparr>fsp_path = ''r'', fsp_totsize = 5, fsp_nbulk = 4, fsp_bulksize = 2,
     fsp_nsubdirs = 2, fsp_dryrun = False\<rparr>"

definition ex_buf :: "byte list" where
  "ex_buf = [1, 2, 3]"

text \<open>
  The number that a string of decimal digits denotes, to read a formatted index back.
\<close>

definition dec_val :: "string \<Rightarrow> nat" where
  "dec_val s = foldl (\<lambda>a ch. 10 * a + (of_char ch - 48)) 0 s"

text \<open>
  A root path short enough for \<^verbatim>\<open>snprintf\<close> never to cut a path name: the longest one
  adds 29 characters to the root.
\<close>

definition no_truncation :: "sysenv \<Rightarrow> fspopulate_t \<Rightarrow> bool" where
  "no_truncation e c \<longleftrightarrow> length (fsp_path c) + 29 < path_max e"

text \<open>
  The plan: the tasks \<open>(di, bi, expectedsz)\<close> that the loop goes through when nothing
  fails, computed from the counters alone (\<open>plan_from\<close> above), and the parts of a task.
\<close>

definition task_di :: "int \<times> int \<times> int \<Rightarrow> int" where
  "task_di t = fst t"

definition task_bi :: "int \<times> int \<times> int \<Rightarrow> int" where
  "task_bi t = fst (snd t)"

definition task_size :: "int \<times> int \<times> int \<Rightarrow> int" where
  "task_size t = snd (snd t)"

definition task_path :: "sysenv \<Rightarrow> fspopulate_t \<Rightarrow> int \<times> int \<times> int \<Rightarrow> string" where
  "task_path e c t = file_path e c (task_di t) (task_bi t)"

definition nominal_size :: "fspopulate_t \<Rightarrow> int \<Rightarrow> int" where
  "nominal_size c bi = (if bi < fsp_nbulk c then fsp_bulksize c else 10485760)"

fun open_paths :: "event list \<Rightarrow> string list" where
  "open_paths [] = []"
| "open_paths (Open p # evs) = p # open_paths evs"
| "open_paths (ev # evs) = open_paths evs"

fun mkdirp_paths :: "event list \<Rightarrow> string list" where
  "mkdirp_paths [] = []"
| "mkdirp_paths (Mkdirp p # evs) = p # mkdirp_paths evs"
| "mkdirp_paths (ev # evs) = mkdirp_paths evs"

text \<open>
  A bound on the number of iterations: each bulk iteration uses up one of the
  \<open>fsp_nbulk\<close> bulk slots, and each later iteration at least one byte of the total (which
  a negative bulk size has moved away by its amount for every bulk slot).
\<close>

definition iter_bound :: "fspopulate_t \<Rightarrow> nat" where
  "iter_bound c = nat (fsp_nbulk c) * (1 + nat (- fsp_bulksize c)) + nat (fsp_totsize c)"

text \<open>
  A task is done in a tree when its file is there with at least the expected size and,
  for a task that creates its directory, the directory is there.
\<close>

definition task_done :: "sysenv \<Rightarrow> fspopulate_t \<Rightarrow> world \<Rightarrow> int \<times> int \<times> int \<Rightarrow> bool" where
  "task_done e c w t \<longleftrightarrow>
     (\<exists>b. files w (task_path e c t) = Some b \<and> task_size t \<le> int (length b))
     \<and> (task_bi t < fsp_nsubdirs c \<longrightarrow> dir_path e c (task_di t) \<in> dirs w)"

text \<open>
  A tree in which the first file of the example plan is there already, with three bytes.
\<close>

definition ex_big_world :: world where
  "ex_big_world =
     \<lparr>dirs = {}, files = (\<lambda>p. if p = ''r/dir000000/file000000'' then Some [7, 7, 7] else None),
      syslog = []\<rparr>"



definition full_writes :: "sysenv \<Rightarrow> bool" where
  "full_writes e \<longleftrightarrow> (\<forall>t p n. write_result e t p n = n)"

section \<open>Basic facts\<close>

lemma log_event_simps [simp]:
  "dirs (log_event ev w) = dirs w"
  "files (log_event ev w) = files w"
  "syslog (log_event ev w) = syslog w @ [ev]"
  by (simp_all add: log_event_def)

lemma write_total_append [simp]: "write_total (xs @ ys) = write_total xs + write_total ys"
  by (induction xs rule: write_total.induct) auto

lemma file_size_content: "file_size w p = int (length (content w p))"
  by (simp add: file_size_def content_def split: option.splits)

lemma sys_write_result:
  assumes "sys_write e buf p n w = (r, w')" and "0 \<le> n"
  shows "r = - 1 \<or> (0 \<le> r \<and> r \<le> n)"
  using assms by (auto simp: sys_write_def Let_def MINc_def split: if_splits)

lemma sys_write_effect:
  assumes "sys_write e buf p n w = (r, w')" and "n \<le> int (length buf)"
  shows "dirs w' = dirs w"
    and "syslog w' = syslog w @ [Write p n r]"
    and "\<And>q. q \<noteq> p \<Longrightarrow> files w' q = files w q"
    and "content w' p = content w p @ take (nat r) buf"
    and "files w p \<noteq> None \<Longrightarrow> files w' p \<noteq> None"
    and "0 < r \<Longrightarrow> files w' p \<noteq> None"
    and "length (content w' p) = length (content w p) + nat r"
  using assms
  by (auto simp: sys_write_def Let_def MINc_def content_def split: if_splits option.splits)

lemma populate_loop_effect:
  assumes "populate_loop e buf fd nbytes nwritten w = (r, w')"
  shows "dirs w' = dirs w
    \<and> (\<forall>q. q \<noteq> fd \<longrightarrow> files w' q = files w q)
    \<and> (files w fd \<noteq> None \<longrightarrow> files w' fd \<noteq> None)
    \<and> (\<exists>added. content w' fd = content w fd @ added \<and> set added \<subseteq> set buf
          \<and> (r = Ok \<longrightarrow> int (length added) = max 0 (nbytes - nwritten)))
    \<and> (\<exists>evs. syslog w' = syslog w @ evs \<and> (\<forall>ev \<in> set evs. is_write ev)
          \<and> (r = Ok \<longrightarrow> write_total evs = max 0 (nbytes - nwritten)))
    \<and> r \<noteq> Undef"
  using assms
proof (induction e buf fd nbytes nwritten w rule: populate_loop.induct)
  case (1 e buf fd nbytes nwritten w)
  show ?case
  proof (cases "nwritten < nbytes")
    case False
    with "1.prems" show ?thesis
      by (simp add: populate_loop.simps)
  next
    case True
    define n where "n = MINc (nbytes - nwritten) (int (length buf))"
    obtain res w1 where sw: "sys_write e buf fd n w = (res, w1)"
      by (cases "sys_write e buf fd n w")
    have nle: "n \<le> int (length buf)" "n \<le> nbytes - nwritten" "0 \<le> n"
      using True by (simp_all add: n_def MINc_def)
    note eff = sys_write_effect [OF sw nle(1)]
    note rng = sys_write_result [OF sw nle(3)]
    have sub: "set (take (nat res) buf) \<subseteq> set buf"
      by (rule set_take_subset)
    show ?thesis
    proof (cases "res = 0 \<or> res = - 1")
      case True
      with "1.prems" \<open>nwritten < nbytes\<close> sw have r: "r \<noteq> Ok" "r \<noteq> Undef" "w' = w1"
        by (auto simp: populate_loop.simps [of e buf fd nbytes nwritten w] n_def [symmetric] split: if_splits)
      show ?thesis
        using eff r sub by (auto intro!: exI [of _ "take (nat res) buf"] exI [of _ "[Write fd n res]"])
    next
      case False
      with "1.prems" \<open>nwritten < nbytes\<close> sw
      have rec: "populate_loop e buf fd nbytes (nwritten + res) w1 = (r, w')"
        by (auto simp: populate_loop.simps [of e buf fd nbytes nwritten w] n_def [symmetric] split: if_splits)
      from False rng have pos: "0 < res" "res \<le> n" by auto
      have ih: "dirs w' = dirs w1
        \<and> (\<forall>q. q \<noteq> fd \<longrightarrow> files w' q = files w1 q)
        \<and> (files w1 fd \<noteq> None \<longrightarrow> files w' fd \<noteq> None)
        \<and> (\<exists>added. content w' fd = content w1 fd @ added \<and> set added \<subseteq> set buf
              \<and> (r = Ok \<longrightarrow> int (length added) = max 0 (nbytes - (nwritten + res))))
        \<and> (\<exists>evs. syslog w' = syslog w1 @ evs \<and> (\<forall>ev \<in> set evs. is_write ev)
              \<and> (r = Ok \<longrightarrow> write_total evs = max 0 (nbytes - (nwritten + res))))
        \<and> r \<noteq> Undef"
        using "1.IH" [OF True n_def sw [symmetric] _ _ rec] False by auto
      then obtain added evs where a: "content w' fd = content w1 fd @ added" "set added \<subseteq> set buf"
        "r = Ok \<longrightarrow> int (length added) = max 0 (nbytes - (nwritten + res))"
        and ev: "syslog w' = syslog w1 @ evs" "\<forall>ev \<in> set evs. is_write ev"
        "r = Ok \<longrightarrow> write_total evs = max 0 (nbytes - (nwritten + res))"
        by blast
      have c1: "content w' fd = content w fd @ (take (nat res) buf @ added)"
        using a(1) eff(4) by simp
      have c2: "set (take (nat res) buf @ added) \<subseteq> set buf"
        using a(2) sub by simp
      have lt: "length (take (nat res) buf) = nat res"
        using pos nle by simp
      have c3: "r = Ok \<longrightarrow> int (length (take (nat res) buf @ added)) = max 0 (nbytes - nwritten)"
        using a(3) lt pos nle by auto
      have e1: "syslog w' = syslog w @ (Write fd n res # evs)"
        using ev(1) eff(2) by simp
      have e2: "\<forall>ev \<in> set (Write fd n res # evs). is_write ev"
        using ev(2) by simp
      have e3: "r = Ok \<longrightarrow> write_total (Write fd n res # evs) = max 0 (nbytes - nwritten)"
        using ev(3) pos nle by auto
      show ?thesis
        using ih eff(1,3,5) c1 c2 c3 e1 e2 e3 by (intro conjI) (auto simp del: write_total.simps)
    qed
  qed
qed

lemma sys_mkdirp_effect:
  assumes "sys_mkdirp e p w = (rv, en, w')"
  shows "files w' = files w" and "syslog w' = syslog w @ [Mkdirp p]"
    and "rv = - 1 \<and> en \<noteq> EEXIST \<Longrightarrow> dirs w' = dirs w"
    and "\<not> (rv = - 1 \<and> en \<noteq> EEXIST) \<Longrightarrow> dirs w' = insert p (dirs w)"
    and "(rv = - 1 \<and> en \<noteq> EEXIST) = mkdirp_fails e (length (syslog w)) p"
    and "(rv \<noteq> 0 \<and> en \<noteq> EEXIST) = mkdirp_fails e (length (syslog w)) p"
  using assms by (auto simp: sys_mkdirp_def Let_def split: if_splits)

lemma loop_mkdir_effect:
  assumes "loop_mkdir c e w di bi = (failed, w')"
  shows "files w' = files w"
    and "syslog w' = syslog w @ (if bi < fsp_nsubdirs c then [Mkdirp (dir_path e c di)] else [])"
    and "failed \<Longrightarrow> dirs w' = dirs w \<and> bi < fsp_nsubdirs c"
    and "\<not> failed \<Longrightarrow>
           dirs w' = (if bi < fsp_nsubdirs c then insert (dir_path e c di) (dirs w) else dirs w)"
    and "failed = (bi < fsp_nsubdirs c \<and> mkdirp_fails e (length (syslog w)) (dir_path e c di))"
  using assms
  by (auto simp: loop_mkdir_def sys_mkdirp_def Let_def split: if_splits prod.splits)

lemma sys_open_effect:
  assumes "sys_open e p w = (ok, w')"
  shows "dirs w' = dirs w" and "syslog w' = syslog w @ [Open p]"
    and "\<And>q. q \<noteq> p \<Longrightarrow> files w' q = files w q"
    and "content w' p = content w p"
    and "ok \<Longrightarrow> files w' p = Some (content w p)"
    and "\<not> ok \<Longrightarrow> files w' = files w"
    and "ok = (\<not> open_fails e (length (syslog w)) p)"
  using assms
  by (auto simp: sys_open_def Let_def content_def split: if_splits option.splits)

lemma sys_fstat_effect:
  assumes "sys_fstat e p w = (st, w')"
  shows "dirs w' = dirs w" and "syslog w' = syslog w @ [Fstat p]" and "files w' = files w"
    and "\<And>s. st = Some s \<Longrightarrow> s = file_size w p \<and> 0 \<le> s \<and> s \<le> OFF_MAX"
    and "(st = None) = (fstat_fails e (length (syslog w)) p \<or> OFF_MAX < file_size w p)"
  using assms
  by (auto simp: sys_fstat_def Let_def file_size_def split: if_splits option.splits)

lemma sys_close_simps [simp]:
  "dirs (sys_close p w) = dirs w"
  "files (sys_close p w) = files w"
  "syslog (sys_close p w) = syslog w @ [Close p]"
  by (simp_all add: sys_close_def)

lemma content_cong: "files w' p = files w p \<Longrightarrow> content w' p = content w p"
  by (simp add: content_def)

text \<open>The shape of an iteration that reaches the end of the loop body.\<close>

lemma loop_body_Inr:
  assumes "loop_body c e buf w totwritten di bi = Inr (w', tw', di', bi')"
  obtains w1 w2 w3 w4 st where
    "loop_mkdir c e w di bi = (False, w1)"
    "sys_open e (file_path e c di bi) w1 = (True, w2)"
    "sys_fstat e (file_path e c di bi) w2 = (Some st, w3)"
    "populate_file e buf (file_path e c di bi) (expectedsz c totwritten bi - st) w3 = (Ok, w4)"
    "w' = sys_close (file_path e c di bi) w4"
    "tw' = totwritten + expectedsz c totwritten bi"
    "di' = c_rem (di + 1) (fsp_nsubdirs c)"
    "bi' = bi + 1"
    "fsp_nsubdirs c \<noteq> 0" "di + 1 \<le> INT_MAX" "bi + 1 \<le> INT_MAX"
    "in_off_t (fsp_totsize c - totwritten)"
    "in_off_t (expectedsz c totwritten bi - st)"
    "in_off_t (totwritten + expectedsz c totwritten bi)"
  using assms
  by (auto simp: loop_body_def Let_def
      split: prod.splits bool.splits option.splits outcome.splits if_splits)

lemma extends_refl [simp]: "extends w w"
  by (simp add: extends_def)

lemma extends_trans: "extends w1 w2 \<Longrightarrow> extends w2 w3 \<Longrightarrow> extends w1 w3"
  unfolding extends_def
  by (intro conjI) (blast, (metis append.assoc), (metis append.assoc))

lemma extends_log_event [simp]: "extends w (log_event ev w)"
  by (simp add: extends_def)

lemma extends_sys_close [simp]: "extends w (sys_close p w)"
  by (simp add: sys_close_def)

lemma extends_sys_mkdirp: "sys_mkdirp e p w = (rv, en, w') \<Longrightarrow> extends w w'"
  by (auto simp: sys_mkdirp_def Let_def extends_def split: if_splits)

lemma extends_loop_mkdir: "loop_mkdir c e w di bi = (f, w') \<Longrightarrow> extends w w'"
  by (auto simp: loop_mkdir_def split: if_splits prod.splits dest: extends_sys_mkdirp)

lemma extends_sys_open: "sys_open e p w = (ok, w') \<Longrightarrow> extends w w'"
  by (auto simp: sys_open_def Let_def extends_def split: if_splits)

lemma extends_sys_fstat: "sys_fstat e p w = (st, w') \<Longrightarrow> extends w w'"
  by (auto simp: sys_fstat_def Let_def extends_def split: if_splits)

lemma extends_populate_loop:
  assumes "populate_loop e buf fd nbytes nwritten w = (r, w')"
  shows "extends w w'"
proof -
  from populate_loop_effect [OF assms]
  obtain added evs where
    d: "dirs w' = dirs w" and f: "\<forall>q. q \<noteq> fd \<longrightarrow> files w' q = files w q"
    and n: "files w fd \<noteq> None \<longrightarrow> files w' fd \<noteq> None"
    and c: "content w' fd = content w fd @ added"
    and l: "syslog w' = syslog w @ evs"
    by blast
  have "\<exists>a. files w' q = Some (b @ a)" if "files w q = Some b" for q b
  proof (cases "q = fd")
    case True
    with that n c show ?thesis
      by (auto simp: content_def split: option.splits)
  next
    case False
    with that f show ?thesis by simp
  qed
  with d l show ?thesis
    by (auto simp: extends_def)
qed

lemma extends_populate_file: "populate_file e buf fd nbytes w = (r, w') \<Longrightarrow> extends w w'"
  unfolding populate_file_def by (rule extends_populate_loop)

lemma extends_loop_body: "extends w (body_world (loop_body c e buf w totwritten di bi))"
proof -
  obtain f w1 where m: "loop_mkdir c e w di bi = (f, w1)"
    by (cases "loop_mkdir c e w di bi")
  note e1 = extends_loop_mkdir [OF m]
  define p where "p = file_path e c di bi"
  obtain ok w2 where opn: "sys_open e p w1 = (ok, w2)"
    by (cases "sys_open e p w1")
  note e2 = extends_trans [OF e1 extends_sys_open [OF opn]]
  obtain st w3 where fst: "sys_fstat e p w2 = (st, w3)"
    by (cases "sys_fstat e p w2")
  note e3 = extends_trans [OF e2 extends_sys_fstat [OF fst]]
  note e3c = extends_trans [OF e3 extends_sys_close [of w3 p]]
  define nb where "nb = expectedsz c totwritten bi - the st"
  obtain r w4 where pf: "populate_file e buf p nb w3 = (r, w4)"
    by (cases "populate_file e buf p nb w3")
  note e4 = extends_trans [OF e3 extends_populate_file [OF pf]]
  note e5 = extends_trans [OF e4 extends_sys_close [of w4 p]]
  show ?thesis
    using m opn fst pf e1 e2 e3 e3c e4 e5
    by (auto simp: loop_body_def body_world_def Let_def p_def [symmetric] nb_def
        split: bool.splits option.splits outcome.splits if_splits)
qed

lemma fsp_loop_done:
  "\<not> totwritten < fsp_totsize c \<Longrightarrow> fsp_loop c e buf w totwritten di bi = (Ok, w, totwritten, di, bi)"
  by (simp add: fsp_loop.simps)

lemma fsp_loop_stop:
  "totwritten < fsp_totsize c \<Longrightarrow> loop_body c e buf w totwritten di bi = Inl (r, w') \<Longrightarrow>
   fsp_loop c e buf w totwritten di bi = (r, w', totwritten, di, bi)"
  by (simp add: fsp_loop.simps)

lemma fsp_loop_next:
  "totwritten < fsp_totsize c \<Longrightarrow> loop_body c e buf w totwritten di bi = Inr (w', tw', di', bi') \<Longrightarrow>
   fsp_loop c e buf w totwritten di bi = fsp_loop c e buf w' tw' di' bi'"
  by (simp add: fsp_loop.simps)

lemma fsp_loop_induct [case_names step]:
  assumes "\<And>w totwritten di bi.
     (\<And>w' tw' di' bi'. totwritten < fsp_totsize c \<Longrightarrow>
        loop_body c e buf w totwritten di bi = Inr (w', tw', di', bi') \<Longrightarrow> P w' tw' di' bi')
     \<Longrightarrow> P w totwritten di bi"
  shows "P w totwritten di bi"
proof -
  have "c' = c \<longrightarrow> e' = e \<longrightarrow> buf' = buf \<longrightarrow> P w totwritten di bi" for c' e' buf'
  proof (induction c' e' buf' w totwritten di bi rule: fsp_loop.induct)
    case (1 c' e' buf' w totwritten di bi)
    show ?case
    proof (intro impI)
      assume eqs: "c' = c" "e' = e" "buf' = buf"
      show "P w totwritten di bi"
      proof (rule assms)
        fix w' tw' di' bi'
        assume a: "totwritten < fsp_totsize c"
          "loop_body c e buf w totwritten di bi = Inr (w', tw', di', bi')"
        from "1.IH" [of "(w', tw', di', bi')" w' "(tw', di', bi')" tw' "(di', bi')" di' bi'] a eqs
        show "P w' tw' di' bi'" by simp
      qed
    qed
  qed
  then show ?thesis by simp
qed

lemma fsp_loop_cases [case_names finished stop continue]:
  obtains "\<not> totwritten < fsp_totsize c"
  | r w' where "totwritten < fsp_totsize c" "loop_body c e buf w totwritten di bi = Inl (r, w')"
  | w' tw' di' bi' where "totwritten < fsp_totsize c"
      "loop_body c e buf w totwritten di bi = Inr (w', tw', di', bi')"
proof (cases "totwritten < fsp_totsize c")
  case False
  then show ?thesis by (rule that(1))
next
  case True
  show ?thesis
  proof (cases "loop_body c e buf w totwritten di bi")
    case (Inl a)
    with True that(2) show ?thesis by (cases a) auto
  next
    case (Inr b)
    with True that(3) show ?thesis by (cases b) auto
  qed
qed

lemma extends_fsp_loop:
  "fsp_loop c e buf w totwritten di bi = (r, w', s) \<Longrightarrow> extends w w'"
proof (induction w totwritten di bi rule: fsp_loop_induct [where c = c and e = e and buf = buf])
  case (step w totwritten di bi)
  show ?case
  proof (cases rule: fsp_loop_cases [where totwritten = totwritten and c = c and e = e and buf = buf and w = w and di = di and bi = bi])
    case finished
    with step.prems show ?thesis by (simp add: fsp_loop_done)
  next
    case (stop r0 w0)
    with step.prems extends_loop_body [of w c e buf totwritten di bi] show ?thesis
      by (simp add: fsp_loop_stop body_world_def)
  next
    case (continue w1 tw1 di1 bi1)
    with step.prems have "fsp_loop c e buf w1 tw1 di1 bi1 = (r, w', s)"
      by (simp add: fsp_loop_next)
    from step.IH [OF continue this] have "extends w1 w'" .
    moreover from extends_loop_body [of w c e buf totwritten di bi] continue
    have "extends w w1" by (simp add: body_world_def)
    ultimately show ?thesis by (rule extends_trans [rotated])
  qed
qed

lemma extends_fspopulate: "fspopulate c e buf w = (r, w') \<Longrightarrow> extends w w'"
  by (auto simp: fspopulate_def split: if_splits prod.splits
      dest!: extends_fsp_loop extends_sys_mkdirp intro: extends_trans)


lemma populate_loop_nothing:
  "nbytes \<le> nwritten \<Longrightarrow> populate_loop e buf fd nbytes nwritten w = (Ok, w)"
  by (simp add: populate_loop.simps)

lemma loop_body_Inr_effect:
  assumes "loop_body c e buf w totwritten di bi = Inr (w', tw', di', bi')"
  shows "dirs w' = (if bi < fsp_nsubdirs c then insert (dir_path e c di) (dirs w) else dirs w)"
    and "\<And>q. q \<noteq> file_path e c di bi \<Longrightarrow> files w' q = files w q"
    and "\<exists>added. files w' (file_path e c di bi) = Some (content w (file_path e c di bi) @ added)
           \<and> set added \<subseteq> set buf
           \<and> int (length added)
               = max 0 (expectedsz c totwritten bi - file_size w (file_path e c di bi))"
    and "\<exists>wevs. new_events w w'
             = (if bi < fsp_nsubdirs c then [Mkdirp (dir_path e c di)] else [])
               @ [Open (file_path e c di bi), Fstat (file_path e c di bi)] @ wevs
               @ [Close (file_path e c di bi)]
           \<and> (\<forall>ev \<in> set wevs. is_write ev)
           \<and> write_total wevs
               = max 0 (expectedsz c totwritten bi - file_size w (file_path e c di bi))"
    and "file_size w (file_path e c di bi) \<le> OFF_MAX"
proof -
  define p where "p = file_path e c di bi"
  from assms obtain w1 w2 w3 w4 st where
    m: "loop_mkdir c e w di bi = (False, w1)"
    and opn: "sys_open e p w1 = (True, w2)"
    and fst: "sys_fstat e p w2 = (Some st, w3)"
    and pf: "populate_loop e buf p (expectedsz c totwritten bi - st) 0 w3 = (Ok, w4)"
    and w': "w' = sys_close p w4"
    by (rule loop_body_Inr) (auto simp: p_def populate_file_def)
  note me = loop_mkdir_effect [OF m]
  note oe = sys_open_effect [OF opn]
  note fe = sys_fstat_effect [OF fst]
  from populate_loop_effect [OF pf] obtain added wevs where
    pd: "dirs w4 = dirs w3" and pq: "\<forall>q. q \<noteq> p \<longrightarrow> files w4 q = files w3 q"
    and pn: "files w3 p \<noteq> None \<longrightarrow> files w4 p \<noteq> None"
    and pc: "content w4 p = content w3 p @ added" "set added \<subseteq> set buf"
      "int (length added) = max 0 (expectedsz c totwritten bi - st - 0)"
    and pl: "syslog w4 = syslog w3 @ wevs" "\<forall>ev \<in> set wevs. is_write ev"
      "write_total wevs = max 0 (expectedsz c totwritten bi - st - 0)"
    by blast
  have c3: "content w3 p = content w p" "files w3 p = Some (content w p)"
    using oe(4,5) fe(3) me(1) by (simp_all add: content_def)
  have st: "st = file_size w p" "st \<le> OFF_MAX"
    using fe(4) [OF refl] oe(4) me(1) by (simp_all add: file_size_content content_def)
  show "dirs w' = (if bi < fsp_nsubdirs c then insert (dir_path e c di) (dirs w) else dirs w)"
    using w' pd fe(1) oe(1) me(4) by simp
  show "files w' q = files w q" if "q \<noteq> file_path e c di bi" for q
    using that w' pq fe(3) oe(3) me(1) by (simp add: p_def)
  have "files w4 p = Some (content w p @ added)"
    using pn pc(1) c3 by (auto simp: content_def split: option.splits)
  then show "\<exists>added. files w' (file_path e c di bi) = Some (content w (file_path e c di bi) @ added)
           \<and> set added \<subseteq> set buf
           \<and> int (length added)
               = max 0 (expectedsz c totwritten bi - file_size w (file_path e c di bi))"
    using w' pc(2,3) st by (auto simp: p_def)
  have "syslog w' = syslog w @ (if bi < fsp_nsubdirs c then [Mkdirp (dir_path e c di)] else [])
               @ [Open p, Fstat p] @ wevs @ [Close p]"
    using w' pl(1) fe(2) oe(2) me(2) by simp
  then have "new_events w w' = (if bi < fsp_nsubdirs c then [Mkdirp (dir_path e c di)] else [])
               @ [Open p, Fstat p] @ wevs @ [Close p]"
    by (simp add: new_events_def)
  then show "\<exists>wevs. new_events w w'
             = (if bi < fsp_nsubdirs c then [Mkdirp (dir_path e c di)] else [])
               @ [Open (file_path e c di bi), Fstat (file_path e c di bi)] @ wevs
               @ [Close (file_path e c di bi)]
           \<and> (\<forall>ev \<in> set wevs. is_write ev)
           \<and> write_total wevs
               = max 0 (expectedsz c totwritten bi - file_size w (file_path e c di bi))"
    using pl(2,3) st by (auto simp: p_def)
  show "file_size w (file_path e c di bi) \<le> OFF_MAX"
    using st by (simp add: p_def)
qed

lemma written_bytes_append [simp]:
  "written_bytes buf (xs @ ys) = written_bytes buf xs @ written_bytes buf ys"
  by (induction buf xs rule: written_bytes.induct) auto


section \<open>The claims\<close>



lemma dec_val_snoc: "dec_val (s @ [ch]) = 10 * dec_val s + (of_char ch - 48)"
  by (simp add: dec_val_def)

lemma of_char_digit_char: "d < 10 \<Longrightarrow> of_char (digit_char d) - 48 = (d::nat)"
  by (simp add: digit_char_def)

lemma dec_val_dec_digits: "dec_val (dec_digits n) = n"
proof (induction n rule: dec_digits.induct)
  case (1 n)
  show ?case
  proof (cases "n < 10")
    case True
    then show ?thesis
      by (simp add: dec_digits.simps [of n] dec_val_def of_char_digit_char)
  next
    case False
    with 1 show ?thesis
      by (simp add: dec_digits.simps [of n] dec_val_snoc of_char_digit_char)
  qed
qed

lemma dec_val_zeros: "dec_val (replicate k (CHR ''0'') @ s) = dec_val s"
proof -
  have "foldl (\<lambda>a ch. 10 * a + (of_char ch - 48)) (0::nat) (replicate k (CHR ''0'')) = 0"
    by (induction k) simp_all
  then show ?thesis
    by (simp add: dec_val_def)
qed

lemma dec_val_fmt06d: "0 \<le> n \<Longrightarrow> dec_val (fmt06d n) = nat n"
  by (simp add: fmt06d_def zero_pad_def dec_val_zeros dec_val_dec_digits)

lemma fmt06d_inj: "0 \<le> m \<Longrightarrow> 0 \<le> n \<Longrightarrow> fmt06d m = fmt06d n \<Longrightarrow> m = n"
  by (metis dec_val_fmt06d nat_eq_iff2)

lemma digit_char_not_slash: "d < 10 \<Longrightarrow> digit_char d \<noteq> CHR ''/''"
  by (auto simp: digit_char_def dest!: arg_cong [where f = "of_char :: char \<Rightarrow> nat"])

lemma dec_digits_no_slash: "CHR ''/'' \<notin> set (dec_digits n)"
proof (induction n rule: dec_digits.induct)
  case (1 n)
  show ?case
  proof (cases "n < 10")
    case True
    then show ?thesis
      using digit_char_not_slash [of n] by (auto simp: dec_digits.simps [of n])
  next
    case False
    with 1 show ?thesis
      using digit_char_not_slash [of "n mod 10"] by (auto simp: dec_digits.simps [of n])
  qed
qed

lemma fmt06d_no_slash: "CHR ''/'' \<notin> set (fmt06d n)"
  by (auto simp: fmt06d_def zero_pad_def dec_digits_no_slash)

lemma length_dec_digits: "n < 10 ^ k \<Longrightarrow> 0 < k \<Longrightarrow> length (dec_digits n) \<le> k"
proof (induction n arbitrary: k rule: dec_digits.induct)
  case (1 n)
  show ?case
  proof (cases "n < 10")
    case True
    with 1(3) show ?thesis
      by (simp add: dec_digits.simps [of n])
  next
    case False
    obtain j where k: "k = Suc j"
      using 1(3) by (cases k) auto
    from False 1(2) k have "0 < j"
      by (cases j) auto
    moreover from 1(2) k have "n div 10 < 10 ^ j"
      by (simp add: less_mult_imp_div_less mult.commute)
    ultimately have "length (dec_digits (n div 10)) \<le> j"
      using 1(1) False by blast
    with False k show ?thesis
      by (simp add: dec_digits.simps [of n])
  qed
qed

lemma length_fmt06d: "0 \<le> n \<Longrightarrow> n \<le> INT_MAX \<Longrightarrow> length (fmt06d n) \<le> 10"
proof -
  assume n: "0 \<le> n" "n \<le> INT_MAX"
  then have "nat n < 10 ^ 10"
    by (simp add: INT_MAX_def)
  then have "length (dec_digits (nat n)) \<le> 10"
    by (rule length_dec_digits) simp
  with n show ?thesis
    by (simp add: fmt06d_def zero_pad_def)
qed

lemma length_fmt06d_small: "0 \<le> n \<Longrightarrow> n < 1000000 \<Longrightarrow> length (fmt06d n) = 6"
proof -
  assume n: "0 \<le> n" "n < 1000000"
  then have "nat n < 10 ^ 6"
    by simp
  then have "length (dec_digits (nat n)) \<le> 6"
    by (rule length_dec_digits) simp
  with n show ?thesis
    by (simp add: fmt06d_def zero_pad_def)
qed

lemma file_path_full:
  assumes "no_truncation e c" "0 \<le> di" "di \<le> INT_MAX" "0 \<le> bi" "bi \<le> INT_MAX"
  shows "file_path e c di bi = fsp_path c @ ''/dir'' @ fmt06d di @ ''/file'' @ fmt06d bi"
  using assms length_fmt06d [of di] length_fmt06d [of bi]
  by (simp add: file_path_def snprintf_def no_truncation_def)

lemma dir_path_full:
  assumes "no_truncation e c" "0 \<le> di" "di \<le> INT_MAX"
  shows "dir_path e c di = fsp_path c @ ''/dir'' @ fmt06d di"
  using assms length_fmt06d [of di]
  by (simp add: dir_path_def snprintf_def no_truncation_def)

lemma split_at_slash:
  assumes "xs @ CHR ''/'' # ys = xs' @ CHR ''/'' # ys'"
    and "CHR ''/'' \<notin> set xs" "CHR ''/'' \<notin> set xs'"
  shows "xs = xs' \<and> ys = ys'"
proof -
  have "takeWhile (\<lambda>ch. ch \<noteq> CHR ''/'') (xs @ CHR ''/'' # ys) = xs"
    using assms(2) by (auto simp: takeWhile_tail)
  moreover have "takeWhile (\<lambda>ch. ch \<noteq> CHR ''/'') (xs' @ CHR ''/'' # ys') = xs'"
    using assms(3) by (auto simp: takeWhile_tail)
  ultimately have "xs = xs'"
    using assms(1) by simp
  with assms(1) show ?thesis by simp
qed

lemma file_path_inj:
  assumes "no_truncation e c"
    and "0 \<le> di" "di \<le> INT_MAX" "0 \<le> bi" "bi \<le> INT_MAX"
    and "0 \<le> di'" "di' \<le> INT_MAX" "0 \<le> bi'" "bi' \<le> INT_MAX"
    and "file_path e c di bi = file_path e c di' bi'"
  shows "di = di' \<and> bi = bi'"
proof -
  from assms have "fmt06d di @ CHR ''/'' # ''file'' @ fmt06d bi
      = fmt06d di' @ CHR ''/'' # ''file'' @ fmt06d bi'"
    by (simp add: file_path_full)
  then have "fmt06d di = fmt06d di' \<and> ''file'' @ fmt06d bi = ''file'' @ fmt06d bi'"
    by (rule split_at_slash) (rule fmt06d_no_slash)+
  with assms show ?thesis
    by (auto dest: fmt06d_inj)
qed

lemma dir_path_inj:
  assumes "no_truncation e c"
    and "0 \<le> di" "di \<le> INT_MAX" "0 \<le> di'" "di' \<le> INT_MAX"
    and "dir_path e c di = dir_path e c di'"
  shows "di = di'"
  using assms by (auto simp: dir_path_full dest: fmt06d_inj)

lemma file_path_cong: "path_max e' = path_max e \<Longrightarrow> file_path e' c di bi = file_path e c di bi"
  by (simp add: file_path_def)

lemma dir_path_cong: "path_max e' = path_max e \<Longrightarrow> dir_path e' c di = dir_path e c di"
  by (simp add: dir_path_def)

lemma task_simps [simp]:
  "task_di (d, b, x) = d" "task_bi (d, b, x) = b" "task_size (d, b, x) = x"
  "task_path e c (d, b, x) = file_path e c d b"
  by (simp_all add: task_di_def task_bi_def task_size_def task_path_def)

lemma plan_from_Nil: "\<not> totwritten < fsp_totsize c \<Longrightarrow> plan_from c totwritten di bi = []"
  by (simp add: plan_from.simps)

lemma plan_from_Cons:
  "totwritten < fsp_totsize c \<Longrightarrow>
   plan_from c totwritten di bi =
     (di, bi, expectedsz c totwritten bi) #
       plan_from c (totwritten + expectedsz c totwritten bi)
         (c_rem (di + 1) (fsp_nsubdirs c)) (bi + 1)"
  by (subst plan_from.simps) simp

lemma expectedsz_nominal: "expectedsz c totwritten bi = MINc (nominal_size c bi) (fsp_totsize c - totwritten)"
  by (simp add: expectedsz_def nominal_size_def)

lemma expectedsz_le: "totwritten + expectedsz c totwritten bi \<le> fsp_totsize c"
  by (simp add: expectedsz_def MINc_def)

lemma plan_from_bi:
  "k < length (plan_from c totwritten di bi) \<Longrightarrow>
   task_bi (plan_from c totwritten di bi ! k) = bi + int k"
proof (induction c totwritten di bi arbitrary: k rule: plan_from.induct)
  case (1 c totwritten di bi)
  show ?case
  proof (cases "totwritten < fsp_totsize c")
    case False
    with "1.prems" show ?thesis by (simp add: plan_from_Nil)
  next
    case True
    show ?thesis
    proof (cases k)
      case 0
      with True show ?thesis by (simp add: plan_from_Cons)
    next
      case (Suc j)
      with True "1.prems" "1.IH" [OF True, of j] show ?thesis
        by (simp add: plan_from_Cons)
    qed
  qed
qed

lemma plan_from_bi_set:
  "t \<in> set (plan_from c totwritten di bi) \<Longrightarrow>
   bi \<le> task_bi t \<and> task_bi t < bi + int (length (plan_from c totwritten di bi))"
  by (auto simp: in_set_conv_nth plan_from_bi)

lemma plan_from_sum:
  "totwritten \<le> fsp_totsize c \<Longrightarrow>
   totwritten + sum_list (map task_size (plan_from c totwritten di bi)) = fsp_totsize c"
proof (induction c totwritten di bi rule: plan_from.induct)
  case (1 c totwritten di bi)
  show ?case
  proof (cases "totwritten < fsp_totsize c")
    case False
    with "1.prems" show ?thesis by (simp add: plan_from_Nil)
  next
    case True
    from "1.IH" [OF True expectedsz_le] True show ?thesis
      by (simp add: plan_from_Cons)
  qed
qed

lemma plan_from_size:
  "k < length (plan_from c totwritten di bi) \<Longrightarrow>
   task_size (plan_from c totwritten di bi ! k)
     = MINc (nominal_size c (bi + int k))
         (fsp_totsize c
            - (totwritten + sum_list (map task_size (take k (plan_from c totwritten di bi)))))"
proof (induction c totwritten di bi arbitrary: k rule: plan_from.induct)
  case (1 c totwritten di bi)
  show ?case
  proof (cases "totwritten < fsp_totsize c")
    case False
    with "1.prems" show ?thesis by (simp add: plan_from_Nil)
  next
    case True
    show ?thesis
    proof (cases k)
      case 0
      with True show ?thesis by (simp add: plan_from_Cons expectedsz_nominal)
    next
      case (Suc j)
      with True "1.prems" "1.IH" [OF True, of j] show ?thesis
        by (simp add: plan_from_Cons add.assoc)
    qed
  qed
qed

text \<open>A task that is cut below its nominal size is the last one.\<close>

lemma plan_from_only_last_clipped:
  "Suc k < length (plan_from c totwritten di bi) \<Longrightarrow>
   task_size (plan_from c totwritten di bi ! k) = nominal_size c (bi + int k)"
proof (induction c totwritten di bi arbitrary: k rule: plan_from.induct)
  case (1 c totwritten di bi)
  show ?case
  proof (cases "totwritten < fsp_totsize c")
    case False
    with "1.prems" show ?thesis by (simp add: plan_from_Nil)
  next
    case True
    show ?thesis
    proof (cases k)
      case 0
      with True "1.prems" have "plan_from c (totwritten + expectedsz c totwritten bi)
          (c_rem (di + 1) (fsp_nsubdirs c)) (bi + 1) \<noteq> []"
        by (auto simp: plan_from_Cons)
      then have "totwritten + expectedsz c totwritten bi < fsp_totsize c"
        using plan_from_Nil by blast
      then have "expectedsz c totwritten bi = nominal_size c bi"
        by (auto simp: expectedsz_nominal MINc_def split: if_splits)
      with 0 True show ?thesis by (simp add: plan_from_Cons)
    next
      case (Suc j)
      with True "1.prems" "1.IH" [OF True, of j] show ?thesis
        by (simp add: plan_from_Cons add.assoc)
    qed
  qed
qed

lemma c_rem_mod: "0 \<le> a \<Longrightarrow> 0 < b \<Longrightarrow> c_rem a b = a mod b"
  by (cases "a = 0") (simp_all add: c_rem_def)

lemma c_rem_range: "0 \<le> a \<Longrightarrow> 0 \<le> c_rem a b \<and> c_rem a b \<le> a"
proof -
  assume a: "0 \<le> a"
  have "\<bar>a\<bar> mod \<bar>b\<bar> \<le> \<bar>a\<bar>"
    by (cases "b = 0") (simp_all add: zmod_le_nonneg_dividend)
  moreover have "0 \<le> \<bar>a\<bar> mod \<bar>b\<bar>"
    by (cases "b = 0") simp_all
  ultimately show ?thesis
    using a by (cases "a = 0") (simp_all add: c_rem_def)
qed

lemma plan_from_di:
  "0 < fsp_nsubdirs c \<Longrightarrow> 0 \<le> di \<Longrightarrow> k < length (plan_from c totwritten di bi) \<Longrightarrow>
   task_di (plan_from c totwritten di bi ! k) = (if k = 0 then di else (di + int k) mod fsp_nsubdirs c)"
proof (induction c totwritten di bi arbitrary: k rule: plan_from.induct)
  case (1 c totwritten di bi)
  show ?case
  proof (cases "totwritten < fsp_totsize c")
    case False
    with "1.prems" show ?thesis by (simp add: plan_from_Nil)
  next
    case True
    show ?thesis
    proof (cases k)
      case 0
      with True show ?thesis by (simp add: plan_from_Cons)
    next
      case (Suc j)
      have r: "c_rem (di + 1) (fsp_nsubdirs c) = (di + 1) mod fsp_nsubdirs c"
        using "1.prems" by (simp add: c_rem_mod)
      have "task_di (plan_from c (totwritten + expectedsz c totwritten bi)
          (c_rem (di + 1) (fsp_nsubdirs c)) (bi + 1) ! j)
        = (if j = 0 then c_rem (di + 1) (fsp_nsubdirs c)
           else (c_rem (di + 1) (fsp_nsubdirs c) + int j) mod fsp_nsubdirs c)"
        using "1.prems" True Suc r
        by (intro "1.IH") (simp_all add: plan_from_Cons)
      with True Suc r show ?thesis
        by (simp add: plan_from_Cons mod_add_left_eq add.assoc)
    qed
  qed
qed

lemma open_paths_append [simp]: "open_paths (xs @ ys) = open_paths xs @ open_paths ys"
  by (induction xs rule: open_paths.induct) auto

lemma mkdirp_paths_append [simp]: "mkdirp_paths (xs @ ys) = mkdirp_paths xs @ mkdirp_paths ys"
  by (induction xs rule: mkdirp_paths.induct) auto

lemma writes_no_paths:
  "\<forall>ev \<in> set evs. is_write ev \<Longrightarrow> open_paths evs = [] \<and> mkdirp_paths evs = []"
proof (induction evs)
  case Nil
  show ?case by simp
next
  case (Cons ev evs)
  then show ?case by (cases ev) simp_all
qed

text \<open>The system calls of one iteration, however it ends.\<close>

lemma loop_body_events:
  "\<exists>evs. new_events w (body_world (loop_body c e buf w totwritten di bi))
       = (if bi < fsp_nsubdirs c then [Mkdirp (dir_path e c di)] else []) @ evs
     \<and> mkdirp_paths evs = []
     \<and> (open_paths evs = [] \<or> open_paths evs = [file_path e c di bi])"
proof -
  define mk where "mk = (if bi < fsp_nsubdirs c then [Mkdirp (dir_path e c di)] else [])"
  define p where "p = file_path e c di bi"
  obtain f w1 where m: "loop_mkdir c e w di bi = (f, w1)"
    by (cases "loop_mkdir c e w di bi")
  have l1: "syslog w1 = syslog w @ mk"
    using loop_mkdir_effect(2) [OF m] by (simp add: mk_def)
  obtain ok w2 where opn: "sys_open e p w1 = (ok, w2)"
    by (cases "sys_open e p w1")
  have l2: "syslog w2 = syslog w @ mk @ [Open p]"
    using sys_open_effect(2) [OF opn] l1 by simp
  obtain st w3 where fst: "sys_fstat e p w2 = (st, w3)"
    by (cases "sys_fstat e p w2")
  have l3: "syslog w3 = syslog w @ mk @ [Open p, Fstat p]"
    using sys_fstat_effect(2) [OF fst] l2 by simp
  define nb where "nb = expectedsz c totwritten bi - the st"
  obtain r w4 where pf: "populate_loop e buf p nb 0 w3 = (r, w4)"
    by (cases "populate_loop e buf p nb 0 w3")
  from populate_loop_effect [OF pf] obtain wevs where
    l4: "syslog w4 = syslog w3 @ wevs" and wr: "\<forall>ev \<in> set wevs. is_write ev"
    by blast
  note np = writes_no_paths [OF wr]
  have "\<exists>evs. syslog (body_world (loop_body c e buf w totwritten di bi)) = syslog w @ mk @ evs
     \<and> mkdirp_paths evs = [] \<and> (open_paths evs = [] \<or> open_paths evs = [p])"
    using m opn fst pf l1 l2 l3 l4 np
    by (auto simp: loop_body_def body_world_def Let_def p_def [symmetric] nb_def populate_file_def
        split: bool.splits option.splits outcome.splits if_splits)
  then show ?thesis
    by (auto simp: new_events_def mk_def p_def)
qed

lemma loop_body_Inl_not_Ok: "loop_body c e buf w totwritten di bi = Inl (r, w') \<Longrightarrow> r \<noteq> Ok"
  by (auto simp: loop_body_def Let_def
      split: prod.splits bool.splits option.splits outcome.splits if_splits)

lemma new_events_trans:
  "extends w1 w2 \<Longrightarrow> extends w2 w3 \<Longrightarrow> new_events w1 w3 = new_events w1 w2 @ new_events w2 w3"
  by (auto simp: extends_def new_events_def)

lemma new_events_refl [simp]: "new_events w w = []"
  by (simp add: new_events_def)

text \<open>A run that returns 0 has gone through the whole plan.\<close>

lemma fsp_loop_Ok_plan:
  assumes "fsp_loop c e buf w totwritten di bi = (Ok, w', tw', di', bi')"
  shows "tw' = totwritten + sum_list (map task_size (plan_from c totwritten di bi))
    \<and> bi' = bi + int (length (plan_from c totwritten di bi))
    \<and> open_paths (new_events w w') = map (task_path e c) (plan_from c totwritten di bi)
    \<and> mkdirp_paths (new_events w w')
        = map (\<lambda>t. dir_path e c (task_di t))
            (filter (\<lambda>t. task_bi t < fsp_nsubdirs c) (plan_from c totwritten di bi))
    \<and> (\<forall>t \<in> set (plan_from c totwritten di bi). task_bi t < INT_MAX \<and> task_di t < INT_MAX)
    \<and> (0 \<le> di \<longrightarrow> (\<forall>t \<in> set (plan_from c totwritten di bi). 0 \<le> task_di t))"
  using assms
proof (induction w totwritten di bi rule: fsp_loop_induct [where c = c and e = e and buf = buf])
  case (step w totwritten di bi)
  show ?case
  proof (cases rule: fsp_loop_cases [where totwritten = totwritten and c = c and e = e
        and buf = buf and w = w and di = di and bi = bi])
    case finished
    with step.prems show ?thesis
      by (simp add: fsp_loop_done plan_from_Nil)
  next
    case (stop r0 w0)
    with step.prems loop_body_Inl_not_Ok [OF stop(2)] show ?thesis
      by (simp add: fsp_loop_stop)
  next
    case (continue w1 tw1 di1 bi1)
    with step.prems have rec: "fsp_loop c e buf w1 tw1 di1 bi1 = (Ok, w', tw', di', bi')"
      by (simp add: fsp_loop_next)
    note ih = step.IH [OF continue rec]
    from continue(2) have cnt: "tw1 = totwritten + expectedsz c totwritten bi"
      "di1 = c_rem (di + 1) (fsp_nsubdirs c)" "bi1 = bi + 1" "di + 1 \<le> INT_MAX" "bi + 1 \<le> INT_MAX"
      by (auto elim: loop_body_Inr)
    have pl: "plan_from c totwritten di bi
        = (di, bi, expectedsz c totwritten bi) # plan_from c tw1 di1 bi1"
      using plan_from_Cons [OF continue(1), of di bi] cnt(1-3) by simp
    from extends_loop_body [of w c e buf totwritten di bi] continue(2)
    have x1: "extends w w1" by (simp add: body_world_def)
    from extends_fsp_loop [OF rec] have x2: "extends w1 w'" .
    from loop_body_Inr_effect(4) [OF continue(2)] obtain wevs where
      ne: "new_events w w1 = (if bi < fsp_nsubdirs c then [Mkdirp (dir_path e c di)] else [])
               @ [Open (file_path e c di bi), Fstat (file_path e c di bi)] @ wevs
               @ [Close (file_path e c di bi)]"
      and wr: "\<forall>ev \<in> set wevs. is_write ev"
      by blast
    note np = writes_no_paths [OF wr]
    have o1: "open_paths (new_events w w1) = [file_path e c di bi]"
      and m1: "mkdirp_paths (new_events w w1)
        = (if bi < fsp_nsubdirs c then [dir_path e c di] else [])"
      using np by (simp_all add: ne)
    have d1: "0 \<le> di \<longrightarrow> 0 \<le> di1"
      using c_rem_range [of "di + 1" "fsp_nsubdirs c"] cnt by simp
    show ?thesis
      using ih cnt(1,3-5) d1 o1 m1
      by (simp add: pl new_events_trans [OF x1 x2])
  qed
qed

text \<open>A run that ends early has gone through a part of the plan.\<close>

lemma fsp_loop_plan_prefix:
  assumes "fsp_loop c e buf w totwritten di bi = (r, w', s)"
  shows "prefix (open_paths (new_events w w')) (map (task_path e c) (plan_from c totwritten di bi))
    \<and> prefix (mkdirp_paths (new_events w w'))
        (map (\<lambda>t. dir_path e c (task_di t))
            (filter (\<lambda>t. task_bi t < fsp_nsubdirs c) (plan_from c totwritten di bi)))"
  using assms
proof (induction w totwritten di bi rule: fsp_loop_induct [where c = c and e = e and buf = buf])
  case (step w totwritten di bi)
  show ?case
  proof (cases rule: fsp_loop_cases [where totwritten = totwritten and c = c and e = e
        and buf = buf and w = w and di = di and bi = bi])
    case finished
    with step.prems show ?thesis
      by (simp add: fsp_loop_done plan_from_Nil)
  next
    case (stop r0 w0)
    with step.prems have w': "w' = body_world (loop_body c e buf w totwritten di bi)"
      by (simp add: fsp_loop_stop body_world_def)
    from loop_body_events [of w c e buf totwritten di bi] obtain evs where
      "new_events w w' = (if bi < fsp_nsubdirs c then [Mkdirp (dir_path e c di)] else []) @ evs"
      "mkdirp_paths evs = []" "open_paths evs = [] \<or> open_paths evs = [file_path e c di bi]"
      unfolding w' by blast
    then show ?thesis
      by (auto simp: plan_from_Cons [OF stop(1)])
  next
    case (continue w1 tw1 di1 bi1)
    with step.prems have rec: "fsp_loop c e buf w1 tw1 di1 bi1 = (r, w', s)"
      by (simp add: fsp_loop_next)
    note ih = step.IH [OF continue rec]
    from continue(2) have cnt: "tw1 = totwritten + expectedsz c totwritten bi"
      "di1 = c_rem (di + 1) (fsp_nsubdirs c)" "bi1 = bi + 1"
      by (auto elim: loop_body_Inr)
    have pl: "plan_from c totwritten di bi
        = (di, bi, expectedsz c totwritten bi) # plan_from c tw1 di1 bi1"
      using plan_from_Cons [OF continue(1), of di bi] cnt(1-3) by simp
    from extends_loop_body [of w c e buf totwritten di bi] continue(2)
    have x1: "extends w w1" by (simp add: body_world_def)
    from extends_fsp_loop [OF rec] have x2: "extends w1 w'" .
    from loop_body_Inr_effect(4) [OF continue(2)] obtain wevs where
      ne: "new_events w w1 = (if bi < fsp_nsubdirs c then [Mkdirp (dir_path e c di)] else [])
               @ [Open (file_path e c di bi), Fstat (file_path e c di bi)] @ wevs
               @ [Close (file_path e c di bi)]"
      and wr: "\<forall>ev \<in> set wevs. is_write ev"
      by blast
    note np = writes_no_paths [OF wr]
    have o1: "open_paths (new_events w w1) = [file_path e c di bi]"
      and m1: "mkdirp_paths (new_events w w1)
        = (if bi < fsp_nsubdirs c then [dir_path e c di] else [])"
      using np by (simp_all add: ne)
    show ?thesis
      using ih o1 m1
      by (simp add: pl new_events_trans [OF x1 x2])
  qed
qed

lemma fspopulate_cases [consumes 1, case_names dryrun rootfail loop]:
  assumes "fspopulate c e buf w = (r, w')"
  obtains "fsp_dryrun c" "r = Ok" "w' = w"
  | "\<not> fsp_dryrun c" "mkdirp_fails e (length (syslog w)) (fsp_path c)" "r = Fail"
      "w' = log_event (Mkdirp (fsp_path c)) w"
  | w1 tw' di' bi' where "\<not> fsp_dryrun c" "\<not> mkdirp_fails e (length (syslog w)) (fsp_path c)"
      "dirs w1 = insert (fsp_path c) (dirs w)" "files w1 = files w"
      "syslog w1 = syslog w @ [Mkdirp (fsp_path c)]"
      "fsp_loop c e buf w1 0 0 0 = (r, w', tw', di', bi')"
proof (cases "fsp_dryrun c")
  case True
  with assms that(1) show ?thesis
    by (simp add: fspopulate_def)
next
  case False
  obtain rv en w1 where m: "sys_mkdirp e (fsp_path c) w = (rv, en, w1)"
    by (cases "sys_mkdirp e (fsp_path c) w")
  note me = sys_mkdirp_effect [OF m]
  show ?thesis
  proof (cases "mkdirp_fails e (length (syslog w)) (fsp_path c)")
    case True
    with m have "w1 = log_event (Mkdirp (fsp_path c)) w" "rv \<noteq> 0 \<and> en \<noteq> EEXIST"
      by (auto simp: sys_mkdirp_def Let_def)
    with assms False m True that(2) show ?thesis
      by (simp add: fspopulate_def)
  next
    case nofail: False
    with me(6) have ok: "\<not> (rv \<noteq> 0 \<and> en \<noteq> EEXIST)" by simp
    with me(5) nofail have d: "dirs w1 = insert (fsp_path c) (dirs w)"
      using me(4) by blast
    obtain tw' di' bi' where l: "fsp_loop c e buf w1 0 0 0 = (r, w', tw', di', bi')"
      using assms False m ok
      by (cases "fsp_loop c e buf w1 0 0 0") (auto simp: fspopulate_def)
    from that(3) [OF False nofail d me(1) me(2) l] show ?thesis .
  qed
qed

lemma plan_bulk_filter:
  fixes c :: fspopulate_t
  defines "P \<equiv> plan_from c 0 0 0"
  shows "map (\<lambda>t. dir_path e c (task_di t)) (filter (\<lambda>t. task_bi t < fsp_nsubdirs c) P)
    = map (\<lambda>k. dir_path e c (int k)) [0..<min (nat (fsp_nsubdirs c)) (length P)]"
proof -
  define m where "m = min (nat (fsp_nsubdirs c)) (length P)"
  have bi: "task_bi (P ! k) = int k" if "k < length P" for k
    using plan_from_bi [of k c 0 0 0] that by (simp add: P_def)
  have "filter (\<lambda>t. task_bi t < fsp_nsubdirs c) (take m P) = take m P"
  proof (rule filter_True, safe)
    fix t assume "t \<in> set (take m P)"
    then obtain k where "k < m" "k < length P" "t = P ! k"
      by (auto simp: in_set_conv_nth)
    with bi [of k] show "task_bi t < fsp_nsubdirs c"
      by (simp add: m_def)
  qed
  moreover have "filter (\<lambda>t. task_bi t < fsp_nsubdirs c) (drop m P) = []"
  proof (rule filter_False, safe)
    fix t assume t: "t \<in> set (drop m P)" and lt: "task_bi t < fsp_nsubdirs c"
    from t obtain k where "k < length (drop m P)" "drop m P ! k = t"
      unfolding in_set_conv_nth by blast
    then have k: "m + k < length P" "t = P ! (m + k)"
      by auto
    with bi [of "m + k"] lt show False
      by (simp add: m_def min_def split: if_splits)
  qed
  ultimately have f: "filter (\<lambda>t. task_bi t < fsp_nsubdirs c) P = take m P"
    by (metis append_Nil2 append_take_drop_id filter_append)
  have "map (\<lambda>t. dir_path e c (task_di t)) (take m P) = map (\<lambda>k. dir_path e c (int k)) [0..<m]"
  proof (rule nth_equalityI)
    show "length (map (\<lambda>t. dir_path e c (task_di t)) (take m P))
        = length (map (\<lambda>k. dir_path e c (int k)) [0..<m])"
      by (simp add: m_def)
  next
    fix k assume "k < length (map (\<lambda>t. dir_path e c (task_di t)) (take m P))"
    then have k: "k < m" "k < length P" "int k < fsp_nsubdirs c"
      by (auto simp: m_def)
    then have "task_di (P ! k) = int k"
      using plan_from_di [of c 0 k 0 0] by (simp add: P_def)
    with k show "map (\<lambda>t. dir_path e c (task_di t)) (take m P) ! k
        = map (\<lambda>k. dir_path e c (int k)) [0..<m] ! k"
      by simp
  qed
  with f show ?thesis
    by (simp add: m_def)
qed

lemma plan_paths_indexed:
  fixes c :: fspopulate_t
  defines "P \<equiv> plan_from c 0 0 0"
  assumes "0 < fsp_nsubdirs c"
  shows "map (task_path e c) P
    = map (\<lambda>k. file_path e c (int k mod fsp_nsubdirs c) (int k)) [0..<length P]"
proof (rule nth_equalityI)
  show "length (map (task_path e c) P)
      = length (map (\<lambda>k. file_path e c (int k mod fsp_nsubdirs c) (int k)) [0..<length P])"
    by simp
next
  fix k assume "k < length (map (task_path e c) P)"
  then have k: "k < length P" by simp
  then have "task_bi (P ! k) = int k"
    using plan_from_bi [of k c 0 0 0] by (simp add: P_def)
  moreover have "task_di (P ! k) = int k mod fsp_nsubdirs c"
    using plan_from_di [of c 0 k 0 0] k assms(2) by (simp add: P_def)
  ultimately show "map (task_path e c) P ! k
      = map (\<lambda>k. file_path e c (int k mod fsp_nsubdirs c) (int k)) [0..<length P] ! k"
    using k by (simp add: task_path_def)
qed

lemma fspopulate_new_events:
  assumes "\<not> fsp_dryrun c" "\<not> mkdirp_fails e (length (syslog w)) (fsp_path c)"
    and "syslog w1 = syslog w @ [Mkdirp (fsp_path c)]"
    and "fsp_loop c e buf w1 0 0 0 = (r, w', s)"
  shows "new_events w w' = Mkdirp (fsp_path c) # new_events w1 w'"
proof -
  from extends_fsp_loop [OF assms(4)] obtain evs where "syslog w' = syslog w1 @ evs"
    by (auto simp: extends_def)
  with assms(3) show ?thesis
    by (simp add: new_events_def)
qed

text \<open>
  \<^bold>\<open>C6\<close> (when directories are created).  An iteration calls \<^verbatim>\<open>mkdirp\<close>, once and for
  the directory \<open>dir_path e c di\<close>, exactly when \<open>bi < fsp_nsubdirs\<close>, however the iteration
  ends.  A directory that exists already is not an error: the iteration goes on, and the
  set of directories is unchanged.  Over a whole run the \<^verbatim>\<open>mkdirp\<close> calls are the one for the
  root followed by those for the directories \<open>0, 1, \<dots>\<close> of the first \<open>fsp_nsubdirs\<close> files
  of the plan, and no others, however many files follow: a prefix of that list when the
  run ends early, the whole list when it returns 0, in which case every file of the plan
  has been opened.
\<close>

theorem C6_directory_creation:
  "mkdirp_paths (new_events w (body_world (loop_body c e buf w totwritten di bi)))
     = (if bi < fsp_nsubdirs c then [dir_path e c di] else [])
   \<and> (bi < fsp_nsubdirs c \<and> dir_path e c di \<in> dirs w
        \<and> \<not> mkdirp_fails e (length (syslog w)) (dir_path e c di) \<longrightarrow>
      loop_mkdir c e w di bi = (False, log_event (Mkdirp (dir_path e c di)) w))
   \<and> (fspopulate c e buf v = (r, v') \<and> \<not> fsp_dryrun c \<longrightarrow>
        prefix (mkdirp_paths (new_events v v'))
          (fsp_path c # map (\<lambda>k. dir_path e c (int k))
             [0..<min (nat (fsp_nsubdirs c)) (length (plan_from c 0 0 0))])
        \<and> (r = Ok \<longrightarrow>
             mkdirp_paths (new_events v v')
               = fsp_path c # map (\<lambda>k. dir_path e c (int k))
                   [0..<min (nat (fsp_nsubdirs c)) (length (plan_from c 0 0 0))]
             \<and> length (open_paths (new_events v v')) = length (plan_from c 0 0 0)))"
proof (intro conjI impI)
  from loop_body_events [of w c e buf totwritten di bi]
  show "mkdirp_paths (new_events w (body_world (loop_body c e buf w totwritten di bi)))
     = (if bi < fsp_nsubdirs c then [dir_path e c di] else [])"
    by auto
next
  assume "bi < fsp_nsubdirs c \<and> dir_path e c di \<in> dirs w
        \<and> \<not> mkdirp_fails e (length (syslog w)) (dir_path e c di)"
  then show "loop_mkdir c e w di bi = (False, log_event (Mkdirp (dir_path e c di)) w)"
    by (simp add: loop_mkdir_def sys_mkdirp_def)
next
  assume a: "fspopulate c e buf v = (r, v') \<and> \<not> fsp_dryrun c"
  then have run: "fspopulate c e buf v = (r, v')" and nd: "\<not> fsp_dryrun c"
    by simp_all
  let ?ds = "map (\<lambda>k. dir_path e c (int k))
     [0..<min (nat (fsp_nsubdirs c)) (length (plan_from c 0 0 0))]"
  from run show "prefix (mkdirp_paths (new_events v v')) (fsp_path c # ?ds)"
  proof (cases rule: fspopulate_cases)
    case dryrun
    with nd show ?thesis by simp
  next
    case rootfail
    then show ?thesis by (simp add: new_events_def)
  next
    case (loop w1 tw' di' bi')
    from fsp_loop_plan_prefix [OF loop(6)] show ?thesis
      by (simp add: fspopulate_new_events [OF loop(1,2,5,6)] plan_bulk_filter)
  qed
  assume ok: "r = Ok"
  from run have "mkdirp_paths (new_events v v') = fsp_path c # ?ds
    \<and> length (open_paths (new_events v v')) = length (plan_from c 0 0 0)"
  proof (cases rule: fspopulate_cases)
    case dryrun
    with nd show ?thesis by simp
  next
    case rootfail
    with ok show ?thesis by simp
  next
    case (loop w1 tw' di' bi')
    from fsp_loop_Ok_plan [OF loop(6) [unfolded ok]] show ?thesis
      by (simp add: fspopulate_new_events [OF loop(1,2,5,6)] plan_bulk_filter)
  qed
  then show "mkdirp_paths (new_events v v') = fsp_path c # ?ds"
    and "length (open_paths (new_events v v')) = length (plan_from c 0 0 0)"
    by simp_all
qed

theorem C6_directory_creation_witness:
  "fst (fspopulate ex_config ex_env ex_buf ex_world) = Ok \<and> \<not> fsp_dryrun ex_config
   \<and> mkdirp_paths (new_events ex_world (snd (fspopulate ex_config ex_env ex_buf ex_world)))
       = [''r'', ''r/dir000000'', ''r/dir000001'']
   \<and> length (open_paths
        (new_events ex_world (snd (fspopulate ex_config ex_env ex_buf ex_world)))) = 3
   \<and> 0 < fsp_nsubdirs ex_config
   \<and> dir_path ex_env ex_config 0 \<in> dirs (ex_world\<lparr>dirs := {''r/dir000000''}\<rparr>)
   \<and> \<not> mkdirp_fails ex_env 0 (dir_path ex_env ex_config 0)
   \<and> loop_mkdir ex_config ex_env (ex_world\<lparr>dirs := {''r/dir000000''}\<rparr>) 0 0
       = (False, log_event (Mkdirp (dir_path ex_env ex_config 0))
            (ex_world\<lparr>dirs := {''r/dir000000''}\<rparr>))"
proof -
  have ok: "fst (fspopulate ex_config ex_env ex_buf ex_world) = Ok"
    by code_simp
  then have run: "fspopulate ex_config ex_env ex_buf ex_world
      = (Ok, snd (fspopulate ex_config ex_env ex_buf ex_world))"
    by (simp add: prod_eq_iff)
  have nd: "\<not> fsp_dryrun ex_config" "0 < fsp_nsubdirs ex_config"
    by (simp_all add: ex_config_def)
  have len: "length (plan_from ex_config 0 0 0) = 3"
    by code_simp
  have dp: "dir_path ex_env ex_config 0 = ''r/dir000000''"
    "dir_path ex_env ex_config 1 = ''r/dir000001''" "fsp_path ex_config = ''r''"
    "nat (fsp_nsubdirs ex_config) = 2"
    by code_simp+
  have il: "[0..<2] = [0, Suc 0]"
    by (simp add: upt_rec)
  have nf: "\<not> mkdirp_fails ex_env 0 (dir_path ex_env ex_config 0)"
    "syslog (ex_world\<lparr>dirs := {''r/dir000000''}\<rparr>) = []"
    by (simp_all add: ex_env_def ex_world_def)
  have ex: "dir_path ex_env ex_config 0 \<in> dirs (ex_world\<lparr>dirs := {''r/dir000000''}\<rparr>)"
    by (simp add: dp)
  note run1 = C6_directory_creation [of ex_world ex_config ex_env ex_buf 0 0 0 ex_world Ok
        "snd (fspopulate ex_config ex_env ex_buf ex_world)",
        THEN conjunct2, THEN conjunct2, THEN mp, OF conjI [OF run nd(1)],
        THEN conjunct2, THEN mp, OF refl]
  note mk1 = C6_directory_creation [of "ex_world\<lparr>dirs := {''r/dir000000''}\<rparr>" ex_config
        ex_env ex_buf 0 0 0 ex_world Fail ex_world,
        THEN conjunct2, THEN conjunct1, THEN mp]
  have mk2: "loop_mkdir ex_config ex_env (ex_world\<lparr>dirs := {''r/dir000000''}\<rparr>) 0 0
       = (False, log_event (Mkdirp (dir_path ex_env ex_config 0))
            (ex_world\<lparr>dirs := {''r/dir000000''}\<rparr>))"
    using nd(2) ex nf by (intro mk1) simp
  from run1 have "mkdirp_paths (new_events ex_world (snd (fspopulate ex_config ex_env ex_buf ex_world)))
       = [''r'', ''r/dir000000'', ''r/dir000001'']"
    and "length (open_paths
        (new_events ex_world (snd (fspopulate ex_config ex_env ex_buf ex_world)))) = 3"
    by (simp_all add: len dp il)
  with ok nd ex nf(1) mk2 show ?thesis
    by blast
qed

text \<open>
  \<^bold>\<open>C7\<close> (round-robin placement).  The files that a run opens are, in this order, the
  files \<open>0, 1, 2, \<dots>\<close> of the plan, and file \<open>k\<close> is opened at the path that
  \<open>file_path\<close> forms from the directory index \<open>k mod fsp_nsubdirs\<close> and the file index \<open>k\<close>:
  all of them when the run returns 0, the first few when it ends early.  An iteration that
  completes steps \<open>di\<close> to \<open>(di + 1) mod fsp_nsubdirs\<close> and \<open>bi\<close> to \<open>bi + 1\<close>.  When the plan
  has at least \<open>fsp_nsubdirs\<close> files, its first \<open>fsp_nsubdirs\<close> files go to the directories
  \<open>0, 1, \<dots>, fsp_nsubdirs - 1\<close> in this order, one file each.  Unless \<^verbatim>\<open>snprintf\<close> has to cut
  it, the path is the root, \<^verbatim>\<open>/dir\<close>, the directory index, \<^verbatim>\<open>/file\<close> and the file index,
  where an index below one million is written with exactly six decimal digits.
\<close>

theorem C7_round_robin_layout:
  "(fspopulate c e buf v = (r, v') \<and> \<not> fsp_dryrun c \<and> 0 < fsp_nsubdirs c \<longrightarrow>
      prefix (open_paths (new_events v v'))
        (map (\<lambda>k. file_path e c (int k mod fsp_nsubdirs c) (int k))
           [0..<length (plan_from c 0 0 0)])
      \<and> (r = Ok \<longrightarrow>
           open_paths (new_events v v')
             = map (\<lambda>k. file_path e c (int k mod fsp_nsubdirs c) (int k))
                 [0..<length (plan_from c 0 0 0)]))
   \<and> (loop_body c e buf w totwritten di bi = Inr (w', tw', di', bi')
        \<and> 0 \<le> di \<and> 0 < fsp_nsubdirs c \<longrightarrow>
      di' = (di + 1) mod fsp_nsubdirs c \<and> bi' = bi + 1)
   \<and> (0 < fsp_nsubdirs c \<and> nat (fsp_nsubdirs c) \<le> length (plan_from c 0 0 0) \<longrightarrow>
      map task_di (take (nat (fsp_nsubdirs c)) (plan_from c 0 0 0))
        = map int [0..<nat (fsp_nsubdirs c)])
   \<and> (no_truncation e c \<and> 0 \<le> d \<and> d \<le> INT_MAX \<and> 0 \<le> b \<and> b \<le> INT_MAX \<longrightarrow>
      file_path e c d b = fsp_path c @ ''/dir'' @ fmt06d d @ ''/file'' @ fmt06d b)
   \<and> (0 \<le> n \<and> n < 1000000 \<longrightarrow> length (fmt06d n) = 6 \<and> dec_val (fmt06d n) = nat n)"
proof (intro conjI impI)
  assume "0 \<le> n \<and> n < 1000000"
  then show "length (fmt06d n) = 6" and "dec_val (fmt06d n) = nat n"
    by (simp_all add: length_fmt06d_small dec_val_fmt06d)
next
  assume "no_truncation e c \<and> 0 \<le> d \<and> d \<le> INT_MAX \<and> 0 \<le> b \<and> b \<le> INT_MAX"
  then show "file_path e c d b = fsp_path c @ ''/dir'' @ fmt06d d @ ''/file'' @ fmt06d b"
    by (simp add: file_path_full)
next
  assume a: "loop_body c e buf w totwritten di bi = Inr (w', tw', di', bi')
        \<and> 0 \<le> di \<and> 0 < fsp_nsubdirs c"
  then have "di' = c_rem (di + 1) (fsp_nsubdirs c)" "bi' = bi + 1"
    by (auto elim: loop_body_Inr)
  with a show "di' = (di + 1) mod fsp_nsubdirs c" and "bi' = bi + 1"
    by (simp_all add: c_rem_mod)
next
  assume a: "0 < fsp_nsubdirs c \<and> nat (fsp_nsubdirs c) \<le> length (plan_from c 0 0 0)"
  show "map task_di (take (nat (fsp_nsubdirs c)) (plan_from c 0 0 0))
        = map int [0..<nat (fsp_nsubdirs c)]"
  proof (rule nth_equalityI)
    show "length (map task_di (take (nat (fsp_nsubdirs c)) (plan_from c 0 0 0)))
        = length (map int [0..<nat (fsp_nsubdirs c)])"
      using a by simp
  next
    fix k assume "k < length (map task_di (take (nat (fsp_nsubdirs c)) (plan_from c 0 0 0)))"
    with a have k: "k < nat (fsp_nsubdirs c)" "k < length (plan_from c 0 0 0)"
      by simp_all
    then have "task_di (plan_from c 0 0 0 ! k) = int k"
      using plan_from_di [of c 0 k 0 0] a by auto
    with k show "map task_di (take (nat (fsp_nsubdirs c)) (plan_from c 0 0 0)) ! k
        = map int [0..<nat (fsp_nsubdirs c)] ! k"
      by simp
  qed
next
  assume a: "fspopulate c e buf v = (r, v') \<and> \<not> fsp_dryrun c \<and> 0 < fsp_nsubdirs c"
  then have run: "fspopulate c e buf v = (r, v')" and nd: "\<not> fsp_dryrun c"
    and n: "0 < fsp_nsubdirs c"
    by simp_all
  let ?ps = "map (\<lambda>k. file_path e c (int k mod fsp_nsubdirs c) (int k))
     [0..<length (plan_from c 0 0 0)]"
  from run show "prefix (open_paths (new_events v v')) ?ps"
  proof (cases rule: fspopulate_cases)
    case dryrun
    with nd show ?thesis by simp
  next
    case rootfail
    then show ?thesis by (simp add: new_events_def)
  next
    case (loop w1 tw1 di1 bi1)
    from fsp_loop_plan_prefix [OF loop(6)] show ?thesis
      by (simp add: fspopulate_new_events [OF loop(1,2,5,6)] plan_paths_indexed [OF n])
  qed
  assume ok: "r = Ok"
  from run show "open_paths (new_events v v') = ?ps"
  proof (cases rule: fspopulate_cases)
    case dryrun
    with nd show ?thesis by simp
  next
    case rootfail
    with ok show ?thesis by simp
  next
    case (loop w1 tw1 di1 bi1)
    from fsp_loop_Ok_plan [OF loop(6) [unfolded ok]] show ?thesis
      by (simp add: fspopulate_new_events [OF loop(1,2,5,6)] plan_paths_indexed [OF n])
  qed
qed

theorem C7_round_robin_layout_witness:
  "fst (fspopulate ex_config ex_env ex_buf ex_world) = Ok \<and> \<not> fsp_dryrun ex_config
   \<and> 0 < fsp_nsubdirs ex_config
   \<and> open_paths (new_events ex_world (snd (fspopulate ex_config ex_env ex_buf ex_world)))
       = [''r/dir000000/file000000'', ''r/dir000001/file000001'', ''r/dir000000/file000002'']
   \<and> nat (fsp_nsubdirs ex_config) \<le> length (plan_from ex_config 0 0 0)
   \<and> map task_di (take (nat (fsp_nsubdirs ex_config)) (plan_from ex_config 0 0 0)) = [0, 1]
   \<and> no_truncation ex_env ex_config
   \<and> file_path ex_env ex_config 1 768
       = fsp_path ex_config @ ''/dir'' @ fmt06d 1 @ ''/file'' @ fmt06d 768
   \<and> length (fmt06d 768) = 6 \<and> dec_val (fmt06d 768) = 768"
proof -
  have ok: "fst (fspopulate ex_config ex_env ex_buf ex_world) = Ok"
    by code_simp
  then have run: "fspopulate ex_config ex_env ex_buf ex_world
      = (Ok, snd (fspopulate ex_config ex_env ex_buf ex_world))"
    by (simp add: prod_eq_iff)
  have nd: "\<not> fsp_dryrun ex_config" "0 < fsp_nsubdirs ex_config"
    by (simp_all add: ex_config_def)
  have len: "length (plan_from ex_config 0 0 0) = 3"
    by code_simp
  have nn: "nat (fsp_nsubdirs ex_config) = 2" "fsp_nsubdirs ex_config = 2"
    by (simp_all add: ex_config_def)
  have fp: "file_path ex_env ex_config 0 0 = ''r/dir000000/file000000''"
    "file_path ex_env ex_config 1 1 = ''r/dir000001/file000001''"
    "file_path ex_env ex_config 0 2 = ''r/dir000000/file000002''"
    by code_simp+
  have il: "[0..<3] = [0, Suc 0, Suc (Suc 0)]" "[0..<2] = [0, Suc 0]"
    by (simp_all add: upt_rec)
  have nt: "no_truncation ex_env ex_config"
    by (simp add: no_truncation_def ex_env_def ex_config_def)
  note inst = C7_round_robin_layout [of ex_config ex_env ex_buf ex_world Ok
        "snd (fspopulate ex_config ex_env ex_buf ex_world)" ex_world 0 0 0 ex_world 0 0 0
        1 768 768]
  from inst [THEN conjunct1, THEN mp, OF conjI [OF run conjI [OF nd]], THEN conjunct2, THEN mp,
      OF refl]
  have o: "open_paths (new_events ex_world (snd (fspopulate ex_config ex_env ex_buf ex_world)))
       = [''r/dir000000/file000000'', ''r/dir000001/file000001'', ''r/dir000000/file000002'']"
    by (simp add: len nn il fp)
  have le: "nat (fsp_nsubdirs ex_config) \<le> length (plan_from ex_config 0 0 0)"
    by (simp add: len nn)
  from inst [THEN conjunct2, THEN conjunct2, THEN conjunct1, THEN mp, OF conjI [OF nd(2) le]]
  have t: "map task_di (take (nat (fsp_nsubdirs ex_config)) (plan_from ex_config 0 0 0)) = [0, 1]"
    by (simp add: nn il)
  from inst [THEN conjunct2, THEN conjunct2, THEN conjunct2, THEN conjunct1, THEN mp] nt
  have f: "file_path ex_env ex_config 1 768
       = fsp_path ex_config @ ''/dir'' @ fmt06d 1 @ ''/file'' @ fmt06d 768"
    by (simp add: INT_MAX_def)
  from inst [THEN conjunct2, THEN conjunct2, THEN conjunct2, THEN conjunct2, THEN mp]
  have l: "length (fmt06d 768) = 6 \<and> dec_val (fmt06d 768) = 768"
    by simp
  from ok nd o le t nt f l show ?thesis
    by blast
qed

lemma sint_eq_uint_small:
  fixes x :: "64 word"
  assumes "uint x < 2 ^ 63"
  shows "sint x = uint x"
proof -
  have "- (2 ^ 63) \<le> uint x"
    by (rule order_trans [of _ 0]) simp_all
  with assms show ?thesis
    by (simp add: sint_uint signed_take_bit_int_eq_self)
qed

lemma main_config_bulksize: "fsp_bulksize (main_config e totsz path) = uint totsz div 1024"
proof -
  have "uint (totsz div 1024) = uint totsz div 1024"
    by (simp add: uint_div)
  moreover have "uint totsz < 2 ^ 64"
    using uint_lt2p [of totsz] by simp
  ultimately have "uint (totsz div 1024) < 2 ^ 63"
    by simp
  then have "sint (totsz div 1024) = uint (totsz div 1024)"
    by (rule sint_eq_uint_small)
  then show ?thesis
    by (simp add: main_config_def uint_div)
qed


lemma loop_body_Inr_size:
  assumes "loop_body c e buf w totwritten di bi = Inr (w', tw', di', bi')"
  shows "file_size w' (file_path e c di bi)
    = max (file_size w (file_path e c di bi)) (expectedsz c totwritten bi)"
    and "files w' (file_path e c di bi) \<noteq> None"
proof -
  from loop_body_Inr_effect(3) [OF assms] obtain added where
    a: "files w' (file_path e c di bi) = Some (content w (file_path e c di bi) @ added)"
    "int (length added) = max 0 (expectedsz c totwritten bi - file_size w (file_path e c di bi))"
    by blast
  from a(1) show "files w' (file_path e c di bi) \<noteq> None"
    by simp
  from a show "file_size w' (file_path e c di bi)
    = max (file_size w (file_path e c di bi)) (expectedsz c totwritten bi)"
    by (simp add: file_size_def [of w'] file_size_content [of w])
qed

text \<open>
  \<^bold>\<open>C3\<close> (the expected sizes).  The size expected of the file of an iteration is the
  nominal size, cut to what is still missing of the total: the nominal size is the bulk
  size for a file index below \<open>fsp_nbulk\<close> and 10485760 bytes (10 MiB) from there on, and
  the policy of \<^verbatim>\<open>main\<close> makes the bulk size the total divided by 1024, for 768 bulk
  files, whatever the number of directories.  An iteration that completes brings its
  file up to that size and adds the size to \<open>totwritten\<close>; when the size was cut below
  the nominal one, \<open>totwritten\<close> has reached the total and the loop ends there.  File \<open>k\<close> of
  the plan has file index \<open>k\<close> and the nominal size of \<open>k\<close> cut to the total minus the sizes
  planned before it, and every file but the last has its nominal size.  The files of the
  plan are the files that a run that returns 0 has opened.
\<close>

theorem C3_expected_size:
  "expectedsz c totwritten bi
     = MINc (if bi < fsp_nbulk c then fsp_bulksize c else 10485760) (fsp_totsize c - totwritten)
   \<and> fsp_bulksize (main_config e totsz path) = uint totsz div 1024
   \<and> fsp_nbulk (main_config e totsz path) = 768
   \<and> (loop_body c e buf w totwritten di bi = Inr (w', tw', di', bi') \<longrightarrow>
        tw' = totwritten + expectedsz c totwritten bi
        \<and> file_size w' (file_path e c di bi)
            = max (file_size w (file_path e c di bi)) (expectedsz c totwritten bi)
        \<and> (expectedsz c totwritten bi < nominal_size c bi \<longrightarrow>
             tw' = fsp_totsize c
             \<and> fsp_loop c e buf w' tw' di' bi' = (Ok, w', tw', di', bi')))
   \<and> (k < length (plan_from c 0 0 0) \<longrightarrow>
        task_bi (plan_from c 0 0 0 ! k) = int k
        \<and> task_size (plan_from c 0 0 0 ! k)
            = MINc (nominal_size c (int k))
                (fsp_totsize c - sum_list (map task_size (take k (plan_from c 0 0 0))))
        \<and> (Suc k < length (plan_from c 0 0 0) \<longrightarrow>
             task_size (plan_from c 0 0 0 ! k) = nominal_size c (int k)))
   \<and> (fsp_loop c e buf v 0 0 0 = (Ok, v', s) \<longrightarrow>
        open_paths (new_events v v') = map (task_path e c) (plan_from c 0 0 0))"
proof (intro conjI impI)
  show "expectedsz c totwritten bi
     = MINc (if bi < fsp_nbulk c then fsp_bulksize c else 10485760) (fsp_totsize c - totwritten)"
    by (simp add: expectedsz_def)
  show "fsp_bulksize (main_config e totsz path) = uint totsz div 1024"
    by (rule main_config_bulksize)
  show "fsp_nbulk (main_config e totsz path) = 768"
    by (simp add: main_config_def)
next
  assume b: "loop_body c e buf w totwritten di bi = Inr (w', tw', di', bi')"
  then show tw: "tw' = totwritten + expectedsz c totwritten bi"
    by (auto elim: loop_body_Inr)
  from b show "file_size w' (file_path e c di bi)
      = max (file_size w (file_path e c di bi)) (expectedsz c totwritten bi)"
    by (rule loop_body_Inr_size)
  assume "expectedsz c totwritten bi < nominal_size c bi"
  then have "expectedsz c totwritten bi = fsp_totsize c - totwritten"
    by (simp add: expectedsz_nominal MINc_def split: if_splits)
  with tw show "tw' = fsp_totsize c"
    by simp
  then show "fsp_loop c e buf w' tw' di' bi' = (Ok, w', tw', di', bi')"
    by (simp add: fsp_loop_done)
next
  assume k: "k < length (plan_from c 0 0 0)"
  then show "task_bi (plan_from c 0 0 0 ! k) = int k"
    by (simp add: plan_from_bi)
  from plan_from_size [OF k]
  show "task_size (plan_from c 0 0 0 ! k)
      = MINc (nominal_size c (int k))
          (fsp_totsize c - sum_list (map task_size (take k (plan_from c 0 0 0))))"
    by simp
  assume "Suc k < length (plan_from c 0 0 0)"
  from plan_from_only_last_clipped [OF this]
  show "task_size (plan_from c 0 0 0 ! k) = nominal_size c (int k)"
    by simp
next
  assume "fsp_loop c e buf v 0 0 0 = (Ok, v', s)"
  then show "open_paths (new_events v v') = map (task_path e c) (plan_from c 0 0 0)"
    by (cases s) (auto dest: fsp_loop_Ok_plan)
qed

theorem C3_expected_size_witness:
  "\<not> isl (loop_body ex_config ex_env ex_buf ex_world 4 0 2)
   \<and> expectedsz ex_config 4 2 < nominal_size ex_config 2
   \<and> fst (snd (projr (loop_body ex_config ex_env ex_buf ex_world 4 0 2))) = fsp_totsize ex_config
   \<and> 0 < length (plan_from ex_config 0 0 0) \<and> Suc 0 < length (plan_from ex_config 0 0 0)
   \<and> task_size (plan_from ex_config 0 0 0 ! 0) = nominal_size ex_config 0
   \<and> fst (fsp_loop ex_config ex_env ex_buf ex_world 0 0 0) = Ok
   \<and> open_paths (new_events ex_world (fst (snd (fsp_loop ex_config ex_env ex_buf ex_world 0 0 0))))
       = map (task_path ex_env ex_config) (plan_from ex_config 0 0 0)"
proof -
  define X where "X = loop_body ex_config ex_env ex_buf ex_world 4 0 2"
  have nl: "\<not> isl (loop_body ex_config ex_env ex_buf ex_world 4 0 2)"
    by code_simp
  then have "Inr (projr X) = X"
    unfolding X_def by (rule sum.collapse(2))
  then have X: "loop_body ex_config ex_env ex_buf ex_world 4 0 2
      = Inr (fst (projr X), fst (snd (projr X)), fst (snd (snd (projr X))),
          snd (snd (snd (projr X))))"
    by (simp add: X_def)
  have lt: "expectedsz ex_config 4 2 < nominal_size ex_config 2"
    by code_simp
  have len: "0 < length (plan_from ex_config 0 0 0)" "Suc 0 < length (plan_from ex_config 0 0 0)"
    by code_simp+
  define Y where "Y = fsp_loop ex_config ex_env ex_buf ex_world 0 0 0"
  have ok: "fst (fsp_loop ex_config ex_env ex_buf ex_world 0 0 0) = Ok"
    by code_simp
  then have Y: "fsp_loop ex_config ex_env ex_buf ex_world 0 0 0 = (Ok, fst (snd Y), snd (snd Y))"
    by (simp add: Y_def prod_eq_iff)
  note inst = C3_expected_size [of ex_config 4 2 ex_env 0 "[]" ex_buf ex_world 0
      "fst (projr X)" "fst (snd (projr X))" "fst (snd (snd (projr X)))"
      "snd (snd (snd (projr X)))" 0 ex_world "fst (snd Y)" "snd (snd Y)"]
  from inst [THEN conjunct2, THEN conjunct2, THEN conjunct2, THEN conjunct1, THEN mp, OF X,
      THEN conjunct2, THEN conjunct2, THEN mp, OF lt, THEN conjunct1]
  have a: "fst (snd (projr (loop_body ex_config ex_env ex_buf ex_world 4 0 2)))
      = fsp_totsize ex_config"
    by (simp add: X_def)
  from inst [THEN conjunct2, THEN conjunct2, THEN conjunct2, THEN conjunct2, THEN conjunct1,
      THEN mp, OF len(1), THEN conjunct2, THEN conjunct2, THEN mp, OF len(2)]
  have b: "task_size (plan_from ex_config 0 0 0 ! 0) = nominal_size ex_config 0"
    by simp
  from inst [THEN conjunct2, THEN conjunct2, THEN conjunct2, THEN conjunct2, THEN conjunct2,
      THEN mp, OF Y]
  have c: "open_paths (new_events ex_world
        (fst (snd (fsp_loop ex_config ex_env ex_buf ex_world 0 0 0))))
       = map (task_path ex_env ex_config) (plan_from ex_config 0 0 0)"
    by (simp add: Y_def)
  from nl lt a len b ok c show ?thesis
    by blast
qed

lemma plan_from_length:
  "length (plan_from c totwritten di bi)
     \<le> nat (fsp_nbulk c - bi) * (1 + nat (- fsp_bulksize c)) + nat (fsp_totsize c - totwritten)"
proof (induction c totwritten di bi rule: plan_from.induct)
  case (1 c totwritten di bi)
  show ?case
  proof (cases "totwritten < fsp_totsize c")
    case False
    then show ?thesis by (simp add: plan_from_Nil)
  next
    case True
    define K where "K = 1 + nat (- fsp_bulksize c)"
    define x where "x = expectedsz c totwritten bi"
    have ih: "length (plan_from c (totwritten + x) (c_rem (di + 1) (fsp_nsubdirs c)) (bi + 1))
        \<le> nat (fsp_nbulk c - (bi + 1)) * K + nat (fsp_totsize c - (totwritten + x))"
      using "1.IH" [OF True] by (simp add: K_def x_def)
    have "Suc (nat (fsp_nbulk c - (bi + 1)) * K + nat (fsp_totsize c - (totwritten + x)))
        \<le> nat (fsp_nbulk c - bi) * K + nat (fsp_totsize c - totwritten)"
    proof (cases "bi < fsp_nbulk c")
      case bulk: True
      then have "nat (fsp_nbulk c - bi) = Suc (nat (fsp_nbulk c - (bi + 1)))"
        by simp
      then have m: "nat (fsp_nbulk c - bi) * K = K + nat (fsp_nbulk c - (bi + 1)) * K"
        by simp
      have "Suc (nat (fsp_totsize c - (totwritten + x))) \<le> K + nat (fsp_totsize c - totwritten)"
        using True bulk by (auto simp: x_def K_def expectedsz_def MINc_def)
      with m show ?thesis by simp
    next
      case False
      then have "nat (fsp_nbulk c - bi) = 0" "nat (fsp_nbulk c - (bi + 1)) = 0"
        by simp_all
      moreover have "Suc (nat (fsp_totsize c - (totwritten + x))) \<le> nat (fsp_totsize c - totwritten)"
        using True False by (auto simp: x_def expectedsz_def MINc_def)
      ultimately show ?thesis by simp
    qed
    with ih show ?thesis
      by (simp add: plan_from_Cons [OF True] x_def K_def)
  qed
qed

lemma plan_length_bound: "length (plan_from c 0 0 0) \<le> iter_bound c"
  using plan_from_length [of c 0 0 0] by (simp add: iter_bound_def)

text \<open>
  \<^bold>\<open>C9\<close> (the loop terminates).  \<open>fsp_loop\<close> is a total function: its termination is
  proved, for every configuration, where it is defined, with the measure that the bulk
  slots and then the missing bytes decrease.  In numbers: the plan has at most
  \<open>iter_bound c\<close> files, a run opens at most as many files as the plan has, and a run that
  returns 0 has opened exactly these; for a total that is not negative it leaves the
  loop with \<open>totwritten\<close> equal to the total.  An iteration only starts while
  \<open>totwritten\<close> is below the total: for a total of 0 the loop returns at once without any
  system call, \<open>fspopulate\<close> has made the one \<^verbatim>\<open>mkdirp\<close> call for the root and, when that
  does not fail, returns 0 with no file and no other directory created, and \<^verbatim>\<open>main\<close>
  exits with status 0.
\<close>

theorem C9_termination:
  "length (plan_from c 0 0 0) \<le> iter_bound c
   \<and> (fsp_loop c e buf w 0 0 0 = (r, w', tw', di', bi') \<longrightarrow>
        length (open_paths (new_events w w')) \<le> length (plan_from c 0 0 0)
        \<and> (r = Ok \<longrightarrow>
             length (open_paths (new_events w w')) = length (plan_from c 0 0 0)
             \<and> bi' = int (length (plan_from c 0 0 0))
             \<and> \<not> tw' < fsp_totsize c
             \<and> (0 \<le> fsp_totsize c \<longrightarrow> tw' = fsp_totsize c)))
   \<and> (fsp_totsize c \<le> 0 \<longrightarrow>
        plan_from c 0 0 0 = [] \<and> fsp_loop c e buf w 0 0 0 = (Ok, w, 0, 0, 0))
   \<and> (fsp_totsize c = 0 \<and> \<not> fsp_dryrun c
        \<and> \<not> mkdirp_fails e (length (syslog v)) (fsp_path c) \<longrightarrow>
        fst (fspopulate c e buf v) = Ok
        \<and> files (snd (fspopulate c e buf v)) = files v
        \<and> dirs (snd (fspopulate c e buf v)) = insert (fsp_path c) (dirs v)
        \<and> new_events v (snd (fspopulate c e buf v)) = [Mkdirp (fsp_path c)])
   \<and> (\<not> mkdirp_fails e (length (syslog v)) (take (path_max e - 1) path) \<longrightarrow>
        fst (main srand rnd e 0 path v) = Exited 0
        \<and> files (snd (main srand rnd e 0 path v)) = files v
        \<and> dirs (snd (main srand rnd e 0 path v)) = insert (take (path_max e - 1) path) (dirs v))"
proof -
  have zero: "fst (fspopulate c e buf v) = Ok
        \<and> files (snd (fspopulate c e buf v)) = files v
        \<and> dirs (snd (fspopulate c e buf v)) = insert (fsp_path c) (dirs v)
        \<and> new_events v (snd (fspopulate c e buf v)) = [Mkdirp (fsp_path c)]"
    if "fsp_totsize c = 0" "\<not> fsp_dryrun c" "\<not> mkdirp_fails e (length (syslog v)) (fsp_path c)"
    for c :: fspopulate_t and buf
    using that
    by (auto simp: fspopulate_def sys_mkdirp_def Let_def fsp_loop_done new_events_def)
  have p1: "length (plan_from c 0 0 0) \<le> iter_bound c"
    by (rule plan_length_bound)
  have p2: "length (open_paths (new_events w w')) \<le> length (plan_from c 0 0 0)
        \<and> (r = Ok \<longrightarrow>
             length (open_paths (new_events w w')) = length (plan_from c 0 0 0)
             \<and> bi' = int (length (plan_from c 0 0 0))
             \<and> \<not> tw' < fsp_totsize c
             \<and> (0 \<le> fsp_totsize c \<longrightarrow> tw' = fsp_totsize c))"
    if run: "fsp_loop c e buf w 0 0 0 = (r, w', tw', di', bi')"
  proof (intro conjI impI)
    from fsp_loop_plan_prefix [OF run]
    have "prefix (open_paths (new_events w w')) (map (task_path e c) (plan_from c 0 0 0))"
      by simp
    from prefix_length_le [OF this]
    show "length (open_paths (new_events w w')) \<le> length (plan_from c 0 0 0)"
      by simp
    assume ok: "r = Ok"
    note pl = fsp_loop_Ok_plan [OF run [unfolded ok]]
    from pl show "length (open_paths (new_events w w')) = length (plan_from c 0 0 0)"
      by simp
    from pl show "bi' = int (length (plan_from c 0 0 0))"
      by simp
    from pl have tw: "tw' = sum_list (map task_size (plan_from c 0 0 0))"
      by simp
    show "\<not> tw' < fsp_totsize c"
    proof (cases "0 \<le> fsp_totsize c")
      case True
      with plan_from_sum [of 0 c 0 0] tw show ?thesis by simp
    next
      case False
      then have "plan_from c 0 0 0 = []" by (simp add: plan_from_Nil)
      with tw False show ?thesis by simp
    qed
    assume "0 \<le> fsp_totsize c"
    with plan_from_sum [of 0 c 0 0] tw show "tw' = fsp_totsize c"
      by simp
  qed
  have p3: "plan_from c 0 0 0 = [] \<and> fsp_loop c e buf w 0 0 0 = (Ok, w, 0, 0, 0)"
    if "fsp_totsize c \<le> 0"
    using that by (simp add: plan_from_Nil fsp_loop_done)
  have p5: "fst (main srand rnd e 0 path v) = Exited 0
        \<and> files (snd (main srand rnd e 0 path v)) = files v
        \<and> dirs (snd (main srand rnd e 0 path v)) = insert (take (path_max e - 1) path) (dirs v)"
    if nf: "\<not> mkdirp_fails e (length (syslog v)) (take (path_max e - 1) path)"
  proof -
    define c0 where "c0 = main_config e 0 path"
    have c0: "fsp_totsize c0 = 0" "\<not> fsp_dryrun c0" "fsp_path c0 = take (path_max e - 1) path"
      by (simp_all add: c0_def main_config_def)
    from zero [of c0 "init_buffer srand rnd (10 * 1024 * 1024)"] c0 nf
    show ?thesis
      by (simp add: main_def Let_def c0_def [symmetric] main_exit_def case_prod_beta)
  qed
  from p1 p2 p3 zero p5 show ?thesis
    by blast
qed

theorem C9_termination_witness:
  "fst (fsp_loop ex_config ex_env ex_buf ex_world 0 0 0) = Ok \<and> 0 \<le> fsp_totsize ex_config
   \<and> fst (snd (snd (fsp_loop ex_config ex_env ex_buf ex_world 0 0 0))) = fsp_totsize ex_config
   \<and> fsp_totsize (ex_config\<lparr>fsp_totsize := 0\<rparr>) = 0
   \<and> \<not> fsp_dryrun (ex_config\<lparr>fsp_totsize := 0\<rparr>)
   \<and> \<not> mkdirp_fails ex_env (length (syslog ex_world)) (fsp_path (ex_config\<lparr>fsp_totsize := 0\<rparr>))
   \<and> fst (fspopulate (ex_config\<lparr>fsp_totsize := 0\<rparr>) ex_env ex_buf ex_world) = Ok
   \<and> files (snd (fspopulate (ex_config\<lparr>fsp_totsize := 0\<rparr>) ex_env ex_buf ex_world))
       = files ex_world
   \<and> \<not> mkdirp_fails ex_env (length (syslog ex_world)) (take (path_max ex_env - 1) ''r'')
   \<and> fst (main (\<lambda>n. n) (\<lambda>g. (int g, Suc g)) ex_env 0 ''r'' ex_world) = Exited 0"
proof -
  define Y where "Y = fsp_loop ex_config ex_env ex_buf ex_world 0 0 0"
  have ok: "fst (fsp_loop ex_config ex_env ex_buf ex_world 0 0 0) = Ok"
    by code_simp
  then have Y: "fsp_loop ex_config ex_env ex_buf ex_world 0 0 0
      = (Ok, fst (snd Y), fst (snd (snd Y)), fst (snd (snd (snd Y))), snd (snd (snd (snd Y))))"
    by (simp add: Y_def prod_eq_iff)
  have pos: "0 \<le> fsp_totsize ex_config"
    by (simp add: ex_config_def)
  have z: "fsp_totsize (ex_config\<lparr>fsp_totsize := 0\<rparr>) = 0"
    "\<not> fsp_dryrun (ex_config\<lparr>fsp_totsize := 0\<rparr>)"
    "\<not> mkdirp_fails ex_env (length (syslog ex_world)) (fsp_path (ex_config\<lparr>fsp_totsize := 0\<rparr>))"
    "\<not> mkdirp_fails ex_env (length (syslog ex_world)) (take (path_max ex_env - 1) ''r'')"
    by (simp_all add: ex_config_def ex_env_def)
  note i1 = C9_termination [of ex_config ex_env ex_buf ex_world Ok "fst (snd Y)"
      "fst (snd (snd Y))" "fst (snd (snd (snd Y)))" "snd (snd (snd (snd Y)))"]
  from i1 [THEN conjunct2, THEN conjunct1, THEN mp, OF Y, THEN conjunct2, THEN mp, OF refl] pos
  have a: "fst (snd (snd (fsp_loop ex_config ex_env ex_buf ex_world 0 0 0))) = fsp_totsize ex_config"
    by (simp add: Y_def)
  note i2 = C9_termination [of "ex_config\<lparr>fsp_totsize := 0\<rparr>" ex_env ex_buf ex_world Ok
      ex_world 0 0 0 ex_world "''r''" "\<lambda>n. n" "\<lambda>g. (int g, Suc g)"]
  from i2 [THEN conjunct2, THEN conjunct2, THEN conjunct2, THEN conjunct1, THEN mp] z(1-3)
  have b: "fst (fspopulate (ex_config\<lparr>fsp_totsize := 0\<rparr>) ex_env ex_buf ex_world) = Ok"
    "files (snd (fspopulate (ex_config\<lparr>fsp_totsize := 0\<rparr>) ex_env ex_buf ex_world))
       = files ex_world"
    by blast+
  from i2 [THEN conjunct2, THEN conjunct2, THEN conjunct2, THEN conjunct2, THEN mp, OF z(4)]
  have c: "fst (main (\<lambda>n. n) (\<lambda>g. (int g, Suc g)) ex_env 0 ''r'' ex_world) = Exited 0"
    by blast
  from ok pos a z b c show ?thesis
    by blast
qed

lemma populate_loop_outcome:
  assumes "populate_loop e buf fd nbytes nwritten w = (r, w')"
  shows "(r = Ok \<and> (\<forall>p n res. Write p n res \<in> set (new_events w w') \<longrightarrow> 0 < res))
    \<or> (r = Fail \<and> (\<exists>pre n. new_events w w' = pre @ [Write fd n (- 1)]))
    \<or> (r = Abort \<and> (\<exists>pre n. new_events w w' = pre @ [Write fd n 0]))"
  using assms
proof (induction e buf fd nbytes nwritten w rule: populate_loop.induct)
  case (1 e buf fd nbytes nwritten w)
  show ?case
  proof (cases "nwritten < nbytes")
    case False
    with "1.prems" show ?thesis
      by (simp add: populate_loop.simps new_events_def)
  next
    case True
    define n0 where "n0 = MINc (nbytes - nwritten) (int (length buf))"
    obtain res0 w1 where sw: "sys_write e buf fd n0 w = (res0, w1)"
      by (cases "sys_write e buf fd n0 w")
    have nle: "n0 \<le> int (length buf)" "0 \<le> n0"
      using True by (simp_all add: n0_def MINc_def)
    note eff = sys_write_effect [OF sw nle(1)]
    note rng = sys_write_result [OF sw nle(2)]
    show ?thesis
    proof (cases "res0 = 0 \<or> res0 = - 1")
      case True
      with "1.prems"(1) \<open>nwritten < nbytes\<close> sw
      have "w' = w1" "res0 = 0 \<and> r = Abort \<or> res0 = - 1 \<and> r = Fail"
        by (auto simp: populate_loop.simps [of e buf fd nbytes nwritten w] n0_def [symmetric]
            split: if_splits)
      with eff(2) show ?thesis
        by (auto simp: new_events_def)
    next
      case False
      with "1.prems"(1) \<open>nwritten < nbytes\<close> sw
      have rec: "populate_loop e buf fd nbytes (nwritten + res0) w1 = (r, w')"
        by (auto simp: populate_loop.simps [of e buf fd nbytes nwritten w] n0_def [symmetric]
            split: if_splits)
      from False rng have pos: "0 < res0" by auto
      from populate_loop_effect [OF rec] obtain evs where evs: "syslog w' = syslog w1 @ evs"
        by blast
      then have ne1: "new_events w1 w' = evs"
        by (simp add: new_events_def)
      from evs eff(2) have ne: "new_events w w' = Write fd n0 res0 # new_events w1 w'"
        by (simp add: new_events_def)
      from "1.IH" [OF True n0_def sw [symmetric] _ _ rec] False
      have "(r = Ok \<and> (\<forall>p n res. Write p n res \<in> set (new_events w1 w') \<longrightarrow> 0 < res))
        \<or> (r = Fail \<and> (\<exists>pre n. new_events w1 w' = pre @ [Write fd n (- 1)]))
        \<or> (r = Abort \<and> (\<exists>pre n. new_events w1 w' = pre @ [Write fd n 0]))"
        by auto
      then show ?thesis
        unfolding ne using pos by (elim disjE conjE exE) (auto intro: exI [of _ "_ # _"])
    qed
  qed
qed

text \<open>A loop that does not return 0 returns what its last iteration returned.\<close>

lemma fsp_loop_failed:
  assumes "fsp_loop c e buf w totwritten di bi = (r, w', tw', di', bi')" and "r \<noteq> Ok"
  shows "\<exists>w0. extends w w0 \<and> tw' < fsp_totsize c
    \<and> loop_body c e buf w0 tw' di' bi' = Inl (r, w')"
  using assms
proof (induction w totwritten di bi rule: fsp_loop_induct [where c = c and e = e and buf = buf])
  case (step w totwritten di bi)
  show ?case
  proof (cases rule: fsp_loop_cases [where totwritten = totwritten and c = c and e = e
        and buf = buf and w = w and di = di and bi = bi])
    case finished
    with step.prems show ?thesis
      by (simp add: fsp_loop_done)
  next
    case (stop r0 w0)
    with step.prems have "r0 = r" "w0 = w'" "tw' = totwritten" "di' = di" "bi' = bi"
      by (simp_all add: fsp_loop_stop)
    with stop show ?thesis
      by (intro exI [of _ w]) simp
  next
    case (continue w1 tw1 di1 bi1)
    with step.prems have rec: "fsp_loop c e buf w1 tw1 di1 bi1 = (r, w', tw', di', bi')"
      by (simp add: fsp_loop_next)
    from step.IH [OF continue rec step.prems(2)] obtain w0 where
      w0: "extends w1 w0" "tw' < fsp_totsize c" "loop_body c e buf w0 tw' di' bi' = Inl (r, w')"
      by blast
    from extends_loop_body [of w c e buf totwritten di bi] continue(2)
    have "extends w w1" by (simp add: body_world_def)
    with w0 show ?thesis
      by (blast intro: extends_trans)
  qed
qed

text \<open>
  \<^bold>\<open>C8\<close> (failures end the run at once).  When \<^verbatim>\<open>mkdirp\<close> fails for the root, for a reason
  other than that the directory exists, \<open>fspopulate\<close> returns -1 after that one call.  In an
  iteration, a failing \<^verbatim>\<open>mkdirp\<close> for the directory, a failing \<^verbatim>\<open>open\<close>, a failing \<^verbatim>\<open>fstat\<close>
  and a failing \<open>populate_file\<close> each make the iteration return -1 with no further system
  call but the \<^verbatim>\<open>close\<close> of an open descriptor.  \<open>populate_file\<close> returns 0 only when every
  \<^verbatim>\<open>write\<close> made progress; it returns -1 exactly when its last call was a \<^verbatim>\<open>write\<close> that
  returned -1, and a \<^verbatim>\<open>write\<close> that returns 0 is its last call too: the assertion fails
  and the process is aborted, nothing is tried again.  The loop returns what the failing
  iteration returns, at once and with the counters of that iteration, and \<open>fspopulate\<close>
  passes it on; \<^verbatim>\<open>main\<close> turns -1 into exit status 1.  Whatever the outcome, the tree
  that is left extends the tree that was found: every directory is still there and every
  file still begins with its old bytes.
\<close>

theorem C8_fail_fast:
  "(\<not> fsp_dryrun c \<and> mkdirp_fails e (length (syslog v)) (fsp_path c) \<longrightarrow>
      fspopulate c e buf v = (Fail, log_event (Mkdirp (fsp_path c)) v))
   \<and> (\<not> fsp_dryrun c \<and> sys_mkdirp e (fsp_path c) v = (rv, en, v1)
        \<and> \<not> (rv \<noteq> 0 \<and> en \<noteq> EEXIST) \<longrightarrow>
      fspopulate c e buf v
        = (fst (fsp_loop c e buf v1 0 0 0), fst (snd (fsp_loop c e buf v1 0 0 0))))
   \<and> (bi < fsp_nsubdirs c \<and> mkdirp_fails e (length (syslog w)) (dir_path e c di) \<longrightarrow>
      loop_body c e buf w totwritten di bi = Inl (Fail, log_event (Mkdirp (dir_path e c di)) w))
   \<and> (loop_mkdir c e w di bi = (False, w1) \<and> fsp_nsubdirs c \<noteq> 0 \<and> di + 1 \<le> INT_MAX \<longrightarrow>
        (open_fails e (length (syslog w1)) (file_path e c di bi) \<longrightarrow>
           loop_body c e buf w totwritten di bi
             = Inl (Fail, log_event (Open (file_path e c di bi)) w1))
        \<and> (sys_open e (file_path e c di bi) w1 = (True, w2) \<longrightarrow>
             (fstat_fails e (length (syslog w2)) (file_path e c di bi) \<longrightarrow>
                loop_body c e buf w totwritten di bi
                  = Inl (Fail, sys_close (file_path e c di bi)
                      (log_event (Fstat (file_path e c di bi)) w2)))
             \<and> (sys_fstat e (file_path e c di bi) w2 = (Some st, w3)
                  \<and> in_off_t (fsp_totsize c - totwritten)
                  \<and> in_off_t (expectedsz c totwritten bi - st)
                  \<and> populate_file e buf (file_path e c di bi)
                       (expectedsz c totwritten bi - st) w3 = (x, w4) \<longrightarrow>
                  (x = Fail \<longrightarrow>
                     loop_body c e buf w totwritten di bi
                       = Inl (Fail, sys_close (file_path e c di bi) w4))
                  \<and> (x = Abort \<longrightarrow>
                       loop_body c e buf w totwritten di bi = Inl (Abort, w4)))))
   \<and> (populate_file e buf fd nbytes u = (y, u') \<longrightarrow>
        (y = Ok \<and> (\<forall>p n res. Write p n res \<in> set (new_events u u') \<longrightarrow> 0 < res))
        \<or> (y = Fail \<and> (\<exists>pre n. new_events u u' = pre @ [Write fd n (- 1)]))
        \<or> (y = Abort \<and> (\<exists>pre n. new_events u u' = pre @ [Write fd n 0])))
   \<and> (totwritten < fsp_totsize c \<and> loop_body c e buf w totwritten di bi = Inl (r, w') \<longrightarrow>
        r \<noteq> Ok \<and> fsp_loop c e buf w totwritten di bi = (r, w', totwritten, di, bi))
   \<and> (fsp_loop c e buf w totwritten di bi = (r, w', tw', di', bi') \<and> r \<noteq> Ok \<longrightarrow>
        (\<exists>w0. extends w w0 \<and> tw' < fsp_totsize c
           \<and> loop_body c e buf w0 tw' di' bi' = Inl (r, w')))
   \<and> extends v (snd (fspopulate c e buf v))
   \<and> fst (main srand rnd e totsz path v)
       = main_exit (fst (fspopulate (main_config e totsz path) e
           (init_buffer srand rnd (10 * 1024 * 1024)) v))
   \<and> main_exit Fail = Exited 1 \<and> main_exit Abort = Aborted \<and> main_exit Ok = Exited 0"
proof -
  let ?p = "file_path e c di bi"
  have a: "fspopulate c e buf v = (Fail, log_event (Mkdirp (fsp_path c)) v)"
    if "\<not> fsp_dryrun c \<and> mkdirp_fails e (length (syslog v)) (fsp_path c)"
    using that by (simp add: fspopulate_def sys_mkdirp_def)
  have a2: "fspopulate c e buf v
        = (fst (fsp_loop c e buf v1 0 0 0), fst (snd (fsp_loop c e buf v1 0 0 0)))"
    if "\<not> fsp_dryrun c \<and> sys_mkdirp e (fsp_path c) v = (rv, en, v1)
        \<and> \<not> (rv \<noteq> 0 \<and> en \<noteq> EEXIST)"
    using that by (auto simp: fspopulate_def case_prod_beta)
  have b: "loop_body c e buf w totwritten di bi
      = Inl (Fail, log_event (Mkdirp (dir_path e c di)) w)"
    if "bi < fsp_nsubdirs c \<and> mkdirp_fails e (length (syslog w)) (dir_path e c di)"
    using that by (simp add: loop_body_def loop_mkdir_def sys_mkdirp_def)
  have c1: "loop_body c e buf w totwritten di bi = Inl (Fail, log_event (Open ?p) w1)"
    if "loop_mkdir c e w di bi = (False, w1) \<and> fsp_nsubdirs c \<noteq> 0 \<and> di + 1 \<le> INT_MAX"
      and "open_fails e (length (syslog w1)) ?p"
    using that by (simp add: loop_body_def sys_open_def Let_def)
  have c2: "loop_body c e buf w totwritten di bi
      = Inl (Fail, sys_close ?p (log_event (Fstat ?p) w2))"
    if "loop_mkdir c e w di bi = (False, w1) \<and> fsp_nsubdirs c \<noteq> 0 \<and> di + 1 \<le> INT_MAX"
      and "sys_open e ?p w1 = (True, w2)" and "fstat_fails e (length (syslog w2)) ?p"
    using that by (simp add: loop_body_def sys_fstat_def Let_def)
  have c3: "(x = Fail \<longrightarrow> loop_body c e buf w totwritten di bi = Inl (Fail, sys_close ?p w4))
      \<and> (x = Abort \<longrightarrow> loop_body c e buf w totwritten di bi = Inl (Abort, w4))"
    if "loop_mkdir c e w di bi = (False, w1) \<and> fsp_nsubdirs c \<noteq> 0 \<and> di + 1 \<le> INT_MAX"
      and "sys_open e ?p w1 = (True, w2)"
      and "sys_fstat e ?p w2 = (Some st, w3)
                  \<and> in_off_t (fsp_totsize c - totwritten)
                  \<and> in_off_t (expectedsz c totwritten bi - st)
                  \<and> populate_file e buf ?p (expectedsz c totwritten bi - st) w3 = (x, w4)"
    using that by (simp add: loop_body_def Let_def)
  have d: "(y = Ok \<and> (\<forall>p n res. Write p n res \<in> set (new_events u u') \<longrightarrow> 0 < res))
        \<or> (y = Fail \<and> (\<exists>pre n. new_events u u' = pre @ [Write fd n (- 1)]))
        \<or> (y = Abort \<and> (\<exists>pre n. new_events u u' = pre @ [Write fd n 0]))"
    if "populate_file e buf fd nbytes u = (y, u')"
    using that unfolding populate_file_def by (rule populate_loop_outcome)
  have f: "r \<noteq> Ok \<and> fsp_loop c e buf w totwritten di bi = (r, w', totwritten, di, bi)"
    if "totwritten < fsp_totsize c \<and> loop_body c e buf w totwritten di bi = Inl (r, w')"
    using that by (auto simp: fsp_loop_stop dest: loop_body_Inl_not_Ok)
  have g: "\<exists>w0. extends w w0 \<and> tw' < fsp_totsize c
           \<and> loop_body c e buf w0 tw' di' bi' = Inl (r, w')"
    if "fsp_loop c e buf w totwritten di bi = (r, w', tw', di', bi') \<and> r \<noteq> Ok"
    using that by (auto intro: fsp_loop_failed)
  have h: "extends v (snd (fspopulate c e buf v))"
    by (rule extends_fspopulate [of c e buf v "fst (fspopulate c e buf v)"]) simp
  have i: "fst (main srand rnd e totsz path v)
       = main_exit (fst (fspopulate (main_config e totsz path) e
           (init_buffer srand rnd (10 * 1024 * 1024)) v))"
    by (simp add: main_def Let_def case_prod_beta)
  have j: "main_exit Fail = Exited 1 \<and> main_exit Abort = Aborted \<and> main_exit Ok = Exited 0"
    by (simp add: main_exit_def)
  from a a2 b c1 c2 c3 d f g h i j show ?thesis
    by blast
qed

theorem C8_fail_fast_witness:
  "\<not> fsp_dryrun ex_config
   \<and> mkdirp_fails (ex_env\<lparr>mkdirp_fails := \<lambda>t p. True\<rparr>) (length (syslog ex_world))
       (fsp_path ex_config)
   \<and> fspopulate ex_config (ex_env\<lparr>mkdirp_fails := \<lambda>t p. True\<rparr>) ex_buf ex_world
       = (Fail, log_event (Mkdirp (fsp_path ex_config)) ex_world)
   \<and> 0 < fsp_nsubdirs ex_config
   \<and> loop_body ex_config (ex_env\<lparr>mkdirp_fails := \<lambda>t p. True\<rparr>) ex_buf ex_world 0 0 0
       = Inl (Fail, log_event (Mkdirp (dir_path ex_env ex_config 0)) ex_world)
   \<and> fst (loop_mkdir ex_config (ex_env\<lparr>open_fails := \<lambda>t p. True\<rparr>) ex_world 0 0) = False
   \<and> fsp_nsubdirs ex_config \<noteq> 0 \<and> (0::int) + 1 \<le> INT_MAX
   \<and> loop_body ex_config (ex_env\<lparr>open_fails := \<lambda>t p. True\<rparr>) ex_buf ex_world 0 0 0
       = Inl (Fail, log_event (Open (file_path ex_env ex_config 0 0))
           (snd (loop_mkdir ex_config (ex_env\<lparr>open_fails := \<lambda>t p. True\<rparr>) ex_world 0 0)))
   \<and> fst (populate_file (ex_env\<lparr>write_result := \<lambda>t p n. - 1\<rparr>) ex_buf ''f'' 5 ex_world) = Fail
   \<and> (\<exists>pre n. new_events ex_world
           (snd (populate_file (ex_env\<lparr>write_result := \<lambda>t p n. - 1\<rparr>) ex_buf ''f'' 5 ex_world))
         = pre @ [Write ''f'' n (- 1)])
   \<and> fst (fsp_loop ex_config (ex_env\<lparr>write_result := \<lambda>t p n. 0\<rparr>) ex_buf ex_world 0 0 0) = Abort
   \<and> fst (snd (snd (fsp_loop ex_config (ex_env\<lparr>write_result := \<lambda>t p n. 0\<rparr>) ex_buf ex_world
         0 0 0))) < fsp_totsize ex_config
   \<and> main_exit Fail = Exited 1"
proof -
  define E1 where "E1 = ex_env\<lparr>mkdirp_fails := \<lambda>t p. True\<rparr>"
  define E3 where "E3 = ex_env\<lparr>open_fails := \<lambda>t p. True\<rparr>"
  define E2 where "E2 = ex_env\<lparr>write_result := \<lambda>t p n. - 1\<rparr>"
  define E0 where "E0 = ex_env\<lparr>write_result := \<lambda>t p n. 0\<rparr>"
  have nd: "\<not> fsp_dryrun ex_config" "0 < fsp_nsubdirs ex_config" "fsp_nsubdirs ex_config \<noteq> 0"
    "(0::int) + 1 \<le> INT_MAX"
    by (simp_all add: ex_config_def INT_MAX_def)
  have mf: "mkdirp_fails E1 (length (syslog ex_world)) (fsp_path ex_config)"
    "mkdirp_fails E1 (length (syslog ex_world)) (dir_path E1 ex_config 0)"
    by (simp_all add: E1_def)
  have dp: "dir_path E1 ex_config 0 = dir_path ex_env ex_config 0"
    by (simp add: E1_def dir_path_def ex_env_def)
  note i1 = C8_fail_fast [where c = ex_config and e = E1 and v = ex_world and buf = ex_buf
      and w = ex_world and di = 0 and bi = 0 and totwritten = 0]
  from i1 [THEN conjunct1, THEN mp, OF conjI [OF nd(1) mf(1)]]
  have a: "fspopulate ex_config E1 ex_buf ex_world
       = (Fail, log_event (Mkdirp (fsp_path ex_config)) ex_world)" .
  from i1 [THEN conjunct2, THEN conjunct2, THEN conjunct1, THEN mp, OF conjI [OF nd(2) mf(2)]]
  have b: "loop_body ex_config E1 ex_buf ex_world 0 0 0
       = Inl (Fail, log_event (Mkdirp (dir_path ex_env ex_config 0)) ex_world)"
    by (simp add: dp)
  define w1 where "w1 = snd (loop_mkdir ex_config E3 ex_world 0 0)"
  have m3: "fst (loop_mkdir ex_config E3 ex_world 0 0) = False"
    unfolding E3_def by code_simp
  then have m3': "loop_mkdir ex_config E3 ex_world 0 0 = (False, w1)"
    by (simp add: w1_def prod_eq_iff)
  have of: "open_fails E3 (length (syslog w1)) (file_path E3 ex_config 0 0)"
    by (simp add: E3_def)
  note i3 = C8_fail_fast [where c = ex_config and e = E3 and v = ex_world and buf = ex_buf
      and w = ex_world and di = 0 and bi = 0 and totwritten = 0 and ?w1.0 = w1]
  from i3 [THEN conjunct2, THEN conjunct2, THEN conjunct2, THEN conjunct1, THEN mp,
      OF conjI [OF m3' conjI [OF nd(3,4)]], THEN conjunct1, THEN mp, OF of]
  have c: "loop_body ex_config E3 ex_buf ex_world 0 0 0
       = Inl (Fail, log_event (Open (file_path ex_env ex_config 0 0)) w1)"
    by (simp add: E3_def file_path_def ex_env_def)
  define u' where "u' = snd (populate_file E2 ex_buf ''f'' 5 ex_world)"
  have pf: "fst (populate_file E2 ex_buf ''f'' 5 ex_world) = Fail"
    unfolding E2_def by code_simp
  then have pf': "populate_file E2 ex_buf ''f'' 5 ex_world = (Fail, u')"
    by (simp add: u'_def prod_eq_iff)
  note i2 = C8_fail_fast [where c = ex_config and e = E2 and v = ex_world and buf = ex_buf
      and w = ex_world and di = 0 and bi = 0 and totwritten = 0 and fd = "''f''" and nbytes = 5 and u = ex_world
      and y = Fail and u' = u']
  from i2 [THEN conjunct2, THEN conjunct2, THEN conjunct2, THEN conjunct2, THEN conjunct1,
      THEN mp, OF pf']
  have d: "\<exists>pre n. new_events ex_world u' = pre @ [Write ''f'' n (- 1)]"
    by simp
  define Y where "Y = fsp_loop ex_config E0 ex_buf ex_world 0 0 0"
  have ab: "fst (fsp_loop ex_config E0 ex_buf ex_world 0 0 0) = Abort"
    unfolding E0_def by code_simp
  then have Y: "fsp_loop ex_config E0 ex_buf ex_world 0 0 0
      = (Abort, fst (snd Y), fst (snd (snd Y)), fst (snd (snd (snd Y))), snd (snd (snd (snd Y))))"
    by (simp add: Y_def prod_eq_iff)
  note i0 = C8_fail_fast [where c = ex_config and e = E0 and v = ex_world and buf = ex_buf
      and w = ex_world and di = 0 and bi = 0 and totwritten = 0 and r = Abort and w' = "fst (snd Y)"
      and tw' = "fst (snd (snd Y))" and di' = "fst (snd (snd (snd Y)))"
      and bi' = "snd (snd (snd (snd Y)))"]
  from i0 [THEN conjunct2, THEN conjunct2, THEN conjunct2, THEN conjunct2, THEN conjunct2,
      THEN conjunct2, THEN conjunct1, THEN mp, OF conjI [OF Y]]
  have g: "fst (snd (snd Y)) < fsp_totsize ex_config"
    by auto
  from i0 have j: "main_exit Fail = Exited 1"
    by blast
  from nd mf(1) a b m3 c pf d ab g j show ?thesis
    unfolding w1_def E1_def E3_def E2_def E0_def u'_def Y_def by blast
qed

lemma task_done_mono: "task_done e c w t \<Longrightarrow> extends w w' \<Longrightarrow> task_done e c w' t"
  unfolding task_done_def extends_def by fastforce

lemma task_done_cong:
  assumes "files w' = files w" and "dirs w' = dirs w"
  shows "task_done e c w' t = task_done e c w t"
  unfolding task_done_def assms ..

lemma task_done_env: "path_max e' = path_max e \<Longrightarrow> task_done e' c w t = task_done e c w t"
  by (simp add: task_done_def task_path_def file_path_def dir_path_def)

lemma loop_body_Inr_done:
  assumes "loop_body c e buf w totwritten di bi = Inr (w', tw', di', bi')"
  shows "task_done e c w' (di, bi, expectedsz c totwritten bi)"
proof -
  from loop_body_Inr_effect(3) [OF assms] obtain added where
    "files w' (file_path e c di bi) = Some (content w (file_path e c di bi) @ added)"
    "int (length added) = max 0 (expectedsz c totwritten bi - file_size w (file_path e c di bi))"
    by blast
  then have "\<exists>b. files w' (file_path e c di bi) = Some b
      \<and> expectedsz c totwritten bi \<le> int (length b)"
    by (auto simp: file_size_content)
  with loop_body_Inr_effect(1) [OF assms] show ?thesis
    by (simp add: task_done_def)
qed

text \<open>After a run that returned 0 every task of the plan is done.\<close>

lemma fsp_loop_Ok_done:
  assumes "fsp_loop c e buf w totwritten di bi = (Ok, w', s)"
  shows "\<forall>t \<in> set (plan_from c totwritten di bi). task_done e c w' t"
  using assms
proof (induction w totwritten di bi rule: fsp_loop_induct [where c = c and e = e and buf = buf])
  case (step w totwritten di bi)
  show ?case
  proof (cases rule: fsp_loop_cases [where totwritten = totwritten and c = c and e = e
        and buf = buf and w = w and di = di and bi = bi])
    case finished
    then show ?thesis
      by (simp add: plan_from_Nil)
  next
    case (stop r0 w0)
    with step.prems loop_body_Inl_not_Ok [OF stop(2)] show ?thesis
      by (simp add: fsp_loop_stop)
  next
    case (continue w1 tw1 di1 bi1)
    with step.prems have rec: "fsp_loop c e buf w1 tw1 di1 bi1 = (Ok, w', s)"
      by (simp add: fsp_loop_next)
    note ih = step.IH [OF continue rec]
    from continue(2) have cnt: "tw1 = totwritten + expectedsz c totwritten bi"
      "di1 = c_rem (di + 1) (fsp_nsubdirs c)" "bi1 = bi + 1"
      by (auto elim: loop_body_Inr)
    have pl: "plan_from c totwritten di bi
        = (di, bi, expectedsz c totwritten bi) # plan_from c tw1 di1 bi1"
      using plan_from_Cons [OF continue(1), of di bi] cnt(1-3) by simp
    have "extends w1 w'"
      using rec by (cases s) (auto dest: extends_fsp_loop)
    with loop_body_Inr_done [OF continue(2)]
    have "task_done e c w' (di, bi, expectedsz c totwritten bi)"
      by (rule task_done_mono)
    with ih show ?thesis
      by (simp add: pl)
  qed
qed

text \<open>An iteration on a task that is done changes nothing and writes nothing.\<close>

lemma loop_body_done:
  fixes buf :: "byte list"
  assumes "task_done e c w (di, bi, expectedsz c totwritten bi)"
  defines "bw \<equiv> body_world (loop_body c e buf w totwritten di bi)"
  shows "files bw = files w \<and> dirs bw = dirs w \<and> (\<forall>ev \<in> set (new_events w bw). \<not> is_write ev)"
proof -
  define p where "p = file_path e c di bi"
  from assms(1) obtain b where b: "files w p = Some b" "expectedsz c totwritten bi \<le> int (length b)"
    and d: "bi < fsp_nsubdirs c \<longrightarrow> dir_path e c di \<in> dirs w"
    by (auto simp: task_done_def p_def)
  obtain f w1 where m: "loop_mkdir c e w di bi = (f, w1)"
    by (cases "loop_mkdir c e w di bi")
  note me = loop_mkdir_effect [OF m]
  have d1: "dirs w1 = dirs w"
    using me(3,4) d by (cases f) auto
  obtain ok w2 where opn: "sys_open e p w1 = (ok, w2)"
    by (cases "sys_open e p w1")
  note oe = sys_open_effect [OF opn]
  have f2: "files w2 = files w"
  proof (cases ok)
    case True
    have "files w2 q = files w q" for q
      using oe(3) [of q] oe(5) [OF True] me(1) b(1) by (cases "q = p") (simp_all add: content_def)
    then show ?thesis by (simp add: fun_eq_iff)
  next
    case False
    with oe(6) me(1) show ?thesis by simp
  qed
  obtain st w3 where fst: "sys_fstat e p w2 = (st, w3)"
    by (cases "sys_fstat e p w2")
  note fe = sys_fstat_effect [OF fst]
  have st: "st = Some s \<Longrightarrow> expectedsz c totwritten bi - s \<le> 0" for s
    using fe(4) [of s] f2 b by (simp add: file_size_def)
  have l3: "syslog w3 = syslog w @ (if bi < fsp_nsubdirs c then [Mkdirp (dir_path e c di)] else [])
      @ [Open p, Fstat p]"
    using fe(2) oe(2) me(2) by simp
  have pf: "st = Some s \<Longrightarrow> populate_file e buf p (expectedsz c totwritten bi - s) w3 = (Ok, w3)"
    for s
    using st [of s] by (simp add: populate_file_def populate_loop_nothing)
  have "files bw = files w \<and> dirs bw = dirs w
    \<and> (\<exists>evs. syslog bw = syslog w @ evs \<and> (\<forall>ev \<in> set evs. \<not> is_write ev))"
    unfolding bw_def
    using m opn fst pf d1 f2 l3 me(1,2) oe(1,2) fe(1,3)
    by (auto simp: loop_body_def body_world_def Let_def p_def [symmetric]
        split: bool.splits option.splits outcome.splits if_splits)
  then show ?thesis
    by (auto simp: new_events_def)
qed

lemma fsp_loop_done_plan:
  assumes "\<forall>t \<in> set (plan_from c totwritten di bi). task_done e c w t"
    and "fsp_loop c e buf w totwritten di bi = (r, w', s)"
  shows "files w' = files w \<and> dirs w' = dirs w \<and> (\<forall>ev \<in> set (new_events w w'). \<not> is_write ev)"
  using assms
proof (induction w totwritten di bi rule: fsp_loop_induct [where c = c and e = e and buf = buf])
  case (step w totwritten di bi)
  show ?case
  proof (cases rule: fsp_loop_cases [where totwritten = totwritten and c = c and e = e
        and buf = buf and w = w and di = di and bi = bi])
    case finished
    with step.prems show ?thesis
      by (simp add: fsp_loop_done)
  next
    case (stop r0 w0)
    with step.prems have w': "w' = body_world (loop_body c e buf w totwritten di bi)"
      by (simp add: fsp_loop_stop body_world_def)
    from step.prems(1) have "task_done e c w (di, bi, expectedsz c totwritten bi)"
      by (simp add: plan_from_Cons [OF stop(1)])
    from loop_body_done [OF this, of buf] show ?thesis
      by (simp add: w')
  next
    case (continue w1 tw1 di1 bi1)
    with step.prems have rec: "fsp_loop c e buf w1 tw1 di1 bi1 = (r, w', s)"
      by (simp add: fsp_loop_next)
    from continue(2) have cnt: "tw1 = totwritten + expectedsz c totwritten bi"
      "di1 = c_rem (di + 1) (fsp_nsubdirs c)" "bi1 = bi + 1"
      by (auto elim: loop_body_Inr)
    have pl: "plan_from c totwritten di bi
        = (di, bi, expectedsz c totwritten bi) # plan_from c tw1 di1 bi1"
      using plan_from_Cons [OF continue(1), of di bi] cnt(1-3) by simp
    from step.prems(1) have "task_done e c w (di, bi, expectedsz c totwritten bi)"
      by (simp add: pl)
    from loop_body_done [OF this, of buf] continue(2)
    have b: "files w1 = files w" "dirs w1 = dirs w" "\<forall>ev \<in> set (new_events w w1). \<not> is_write ev"
      by (simp_all add: body_world_def)
    from step.prems(1) have "\<forall>t \<in> set (plan_from c tw1 di1 bi1). task_done e c w1 t"
      by (simp add: pl task_done_cong [OF b(1,2)])
    from step.IH [OF continue this rec]
    have ih: "files w' = files w1" "dirs w' = dirs w1"
      "\<forall>ev \<in> set (new_events w1 w'). \<not> is_write ev"
      by simp_all
    from extends_loop_body [of w c e buf totwritten di bi] continue(2)
    have x1: "extends w w1" by (simp add: body_world_def)
    have x2: "extends w1 w'"
      using rec by (cases s) (auto dest: extends_fsp_loop)
    show ?thesis
      using ih b by (auto simp: new_events_trans [OF x1 x2])
  qed
qed

lemma loop_body_Inr_no_write:
  assumes "loop_body c e buf w totwritten di bi = Inr (w', tw', di', bi')"
    and "expectedsz c totwritten bi \<le> file_size w (file_path e c di bi)"
  shows "\<forall>ev \<in> set (new_events w w'). \<not> is_write ev"
proof -
  from loop_body_Inr_effect(4) [OF assms(1)] assms(2) obtain wevs where
    ne: "new_events w w' = (if bi < fsp_nsubdirs c then [Mkdirp (dir_path e c di)] else [])
               @ [Open (file_path e c di bi), Fstat (file_path e c di bi)] @ wevs
               @ [Close (file_path e c di bi)]"
    and wr: "\<forall>ev \<in> set wevs. is_write ev" and tot: "write_total wevs = 0"
    by auto
  from assms(1) obtain w3 w4 st where
    pf: "populate_loop e buf (file_path e c di bi) (expectedsz c totwritten bi - st) 0 w3 = (Ok, w4)"
    and l: "new_events w3 w4 = wevs"
  proof (rule loop_body_Inr)
    fix w1 w2 w3 w4 st
    assume m: "loop_mkdir c e w di bi = (False, w1)"
      and o: "sys_open e (file_path e c di bi) w1 = (True, w2)"
      and f: "sys_fstat e (file_path e c di bi) w2 = (Some st, w3)"
      and p: "populate_file e buf (file_path e c di bi) (expectedsz c totwritten bi - st) w3
        = (Ok, w4)"
      and c: "w' = sys_close (file_path e c di bi) w4"
    from p have pl: "populate_loop e buf (file_path e c di bi)
        (expectedsz c totwritten bi - st) 0 w3 = (Ok, w4)"
      by (simp add: populate_file_def)
    from populate_loop_effect [OF pl] obtain evs where evs: "syslog w4 = syslog w3 @ evs"
      by blast
    have "syslog w' = syslog w @ (if bi < fsp_nsubdirs c then [Mkdirp (dir_path e c di)] else [])
        @ [Open (file_path e c di bi), Fstat (file_path e c di bi)] @ evs
        @ [Close (file_path e c di bi)]"
      using c evs sys_fstat_effect(2) [OF f] sys_open_effect(2) [OF o] loop_mkdir_effect(2) [OF m]
      by simp
    with ne have "evs = wevs"
      by (simp add: new_events_def)
    with evs have "new_events w3 w4 = wevs"
      by (simp add: new_events_def)
    with pl show thesis by (rule that)
  qed
  from populate_loop_outcome [OF pf] l
  have pos: "\<forall>p n res. Write p n res \<in> set wevs \<longrightarrow> 0 < res"
    by simp
  have "wevs = []"
  proof (cases wevs)
    case Nil
    then show ?thesis .
  next
    case (Cons ev evs)
    with wr obtain p n res where ev: "ev = Write p n res"
      by (cases ev) auto
    with pos Cons have "0 < res" by auto
    moreover have "0 \<le> write_total evs"
      by (induction evs rule: write_total.induct) auto
    ultimately show ?thesis
      using tot Cons ev by simp
  qed
  with ne show ?thesis by auto
qed

lemma fspopulate_idempotent:
  assumes "fspopulate c e1 buf v = (Ok, v1)" and "path_max e2 = path_max e1"
    and "fspopulate c e2 buf v1 = (r, v2)"
  shows "files v2 = files v1 \<and> dirs v2 = dirs v1
    \<and> (\<forall>ev \<in> set (new_events v1 v2). \<not> is_write ev)"
  using assms(1)
proof (cases rule: fspopulate_cases)
  case dryrun
  with assms(3) show ?thesis
    by (simp add: fspopulate_def)
next
  case rootfail
  then show ?thesis by simp
next
  case (loop w1 tw1 di1 bi1)
  from fsp_loop_Ok_done [OF loop(6)]
  have done1: "\<forall>t \<in> set (plan_from c 0 0 0). task_done e2 c v1 t"
    by (simp add: task_done_env [OF assms(2)])
  from extends_fsp_loop [OF loop(6)] loop(3) have root: "fsp_path c \<in> dirs v1"
    by (auto simp: extends_def)
  from assms(3) show ?thesis
  proof (cases rule: fspopulate_cases)
    case dryrun
    with loop(1) show ?thesis by simp
  next
    case rootfail
    then show ?thesis by (simp add: new_events_def)
  next
    case second: (loop w2 tw2 di2 bi2)
    from second(3,4) root have same: "files w2 = files v1" "dirs w2 = dirs v1"
      by auto
    from done1 have "\<forall>t \<in> set (plan_from c 0 0 0). task_done e2 c w2 t"
      by (simp add: task_done_cong [OF same])
    from fsp_loop_done_plan [OF this second(6)] same
    show ?thesis
      by (simp add: fspopulate_new_events [OF second(1,2,5,6)])
  qed
qed

text \<open>
  \<^bold>\<open>C1\<close> (only the shortfall is written; a second run writes nothing).  An iteration that
  completes, on any tree, has appended to its file exactly the shortfall
  \<open>expectedsz - st_size\<close> when that is positive and nothing otherwise, the \<^verbatim>\<open>write\<close> calls of
  the iteration have transferred that many bytes in all, and no other file has changed;
  when the file has its expected size already, or more, the iteration makes no \<^verbatim>\<open>write\<close>
  call.  After a run that returned 0, a second run with the same configuration on the tree
  that the first one left, in whatever environment and with whatever outcome, makes no
  \<^verbatim>\<open>write\<close> call and leaves the files and directories as they are.
\<close>

theorem C1_resume_idempotent:
  "(loop_body c e buf w totwritten di bi = Inr (w', tw', di', bi') \<longrightarrow>
      (\<exists>added. files w' (file_path e c di bi) = Some (content w (file_path e c di bi) @ added)
         \<and> int (length added)
             = max 0 (expectedsz c totwritten bi - file_size w (file_path e c di bi)))
      \<and> (\<forall>q. q \<noteq> file_path e c di bi \<longrightarrow> files w' q = files w q)
      \<and> write_total (new_events w w')
          = max 0 (expectedsz c totwritten bi - file_size w (file_path e c di bi))
      \<and> (expectedsz c totwritten bi \<le> file_size w (file_path e c di bi) \<longrightarrow>
           (\<forall>ev \<in> set (new_events w w'). \<not> is_write ev)))
   \<and> (fspopulate c e1 buf v = (Ok, v1) \<and> path_max e2 = path_max e1 \<longrightarrow>
        files (snd (fspopulate c e2 buf v1)) = files v1
        \<and> dirs (snd (fspopulate c e2 buf v1)) = dirs v1
        \<and> (\<forall>ev \<in> set (new_events v1 (snd (fspopulate c e2 buf v1))). \<not> is_write ev))"
proof (intro conjI impI)
  assume b: "loop_body c e buf w totwritten di bi = Inr (w', tw', di', bi')"
  note eff = loop_body_Inr_effect [OF b]
  from eff(3) show "\<exists>added. files w' (file_path e c di bi)
        = Some (content w (file_path e c di bi) @ added)
      \<and> int (length added) = max 0 (expectedsz c totwritten bi - file_size w (file_path e c di bi))"
    by blast
  from eff(2) show "\<forall>q. q \<noteq> file_path e c di bi \<longrightarrow> files w' q = files w q"
    by blast
  from eff(4) show "write_total (new_events w w')
      = max 0 (expectedsz c totwritten bi - file_size w (file_path e c di bi))"
    by auto
  assume "expectedsz c totwritten bi \<le> file_size w (file_path e c di bi)"
  with b show "\<forall>ev \<in> set (new_events w w'). \<not> is_write ev"
    by (rule loop_body_Inr_no_write)
next
  assume a: "fspopulate c e1 buf v = (Ok, v1) \<and> path_max e2 = path_max e1"
  obtain r v2 where second: "fspopulate c e2 buf v1 = (r, v2)"
    by (cases "fspopulate c e2 buf v1")
  from a have "fspopulate c e1 buf v = (Ok, v1)" "path_max e2 = path_max e1"
    by simp_all
  from fspopulate_idempotent [OF this second] second
  show "files (snd (fspopulate c e2 buf v1)) = files v1"
    and "dirs (snd (fspopulate c e2 buf v1)) = dirs v1"
    and "\<forall>ev \<in> set (new_events v1 (snd (fspopulate c e2 buf v1))). \<not> is_write ev"
    by simp_all
qed

theorem C1_resume_idempotent_witness:
  "\<not> isl (loop_body ex_config ex_env ex_buf ex_world 0 0 0)
   \<and> write_total (new_events ex_world
         (fst (projr (loop_body ex_config ex_env ex_buf ex_world 0 0 0)))) = 2
   \<and> fst (fspopulate ex_config ex_env ex_buf ex_world) = Ok
   \<and> path_max (ex_env\<lparr>write_result := \<lambda>t p n. 1\<rparr>) = path_max ex_env
   \<and> files (snd (fspopulate ex_config (ex_env\<lparr>write_result := \<lambda>t p n. 1\<rparr>) ex_buf
         (snd (fspopulate ex_config ex_env ex_buf ex_world))))
       = files (snd (fspopulate ex_config ex_env ex_buf ex_world))
   \<and> \<not> isl (loop_body ex_config ex_env ex_buf
         (snd (fspopulate ex_config ex_env ex_buf ex_world)) 0 0 0)
   \<and> expectedsz ex_config 0 0
       \<le> file_size (snd (fspopulate ex_config ex_env ex_buf ex_world))
           (file_path ex_env ex_config 0 0)
   \<and> write_total (new_events (snd (fspopulate ex_config ex_env ex_buf ex_world))
         (fst (projr (loop_body ex_config ex_env ex_buf
            (snd (fspopulate ex_config ex_env ex_buf ex_world)) 0 0 0)))) = 0"
proof -
  define X where "X = loop_body ex_config ex_env ex_buf ex_world 0 0 0"
  define W1 where "W1 = snd (fspopulate ex_config ex_env ex_buf ex_world)"
  define Z where "Z = loop_body ex_config ex_env ex_buf W1 0 0 0"
  define E2 where "E2 = ex_env\<lparr>write_result := \<lambda>t p n. 1\<rparr>"
  have nl: "\<not> isl (loop_body ex_config ex_env ex_buf ex_world 0 0 0)"
    by code_simp
  then have "Inr (projr X) = X"
    unfolding X_def by (rule sum.collapse(2))
  then have X: "loop_body ex_config ex_env ex_buf ex_world 0 0 0
      = Inr (fst (projr X), fst (snd (projr X)), fst (snd (snd (projr X))),
          snd (snd (snd (projr X))))"
    by (simp add: X_def)
  have ok: "fst (fspopulate ex_config ex_env ex_buf ex_world) = Ok"
    by code_simp
  then have run: "fspopulate ex_config ex_env ex_buf ex_world = (Ok, W1)"
    by (simp add: W1_def prod_eq_iff)
  have pm: "path_max E2 = path_max ex_env"
    by (simp add: E2_def)
  have nl2: "\<not> isl (loop_body ex_config ex_env ex_buf
         (snd (fspopulate ex_config ex_env ex_buf ex_world)) 0 0 0)"
    by code_simp
  then have "Inr (projr Z) = Z"
    unfolding Z_def W1_def by (rule sum.collapse(2))
  then have Z: "loop_body ex_config ex_env ex_buf W1 0 0 0
      = Inr (fst (projr Z), fst (snd (projr Z)), fst (snd (snd (projr Z))),
          snd (snd (snd (projr Z))))"
    by (simp add: Z_def)
  have ex: "expectedsz ex_config 0 0 = 2"
    by code_simp
  have fs0: "file_size ex_world (file_path ex_env ex_config 0 0) = 0"
    by (simp add: file_size_def ex_world_def)
  have fs1: "file_size (snd (fspopulate ex_config ex_env ex_buf ex_world))
      (file_path ex_env ex_config 0 0) = 2"
    by code_simp
  note i1 = C1_resume_idempotent [where c = ex_config and e = ex_env and buf = ex_buf
      and w = ex_world and totwritten = 0 and di = 0 and bi = 0 and w' = "fst (projr X)"
      and tw' = "fst (snd (projr X))" and di' = "fst (snd (snd (projr X)))"
      and bi' = "snd (snd (snd (projr X)))" and ?e1.0 = ex_env and v = ex_world and ?v1.0 = W1
      and ?e2.0 = E2]
  from i1 [THEN conjunct1, THEN mp, OF X]
  have a: "write_total (new_events ex_world (fst (projr X))) = 2"
    by (simp add: ex fs0)
  from i1 [THEN conjunct2, THEN mp, OF conjI [OF run pm]]
  have b: "files (snd (fspopulate ex_config E2 ex_buf W1)) = files W1"
    by simp
  note i2 = C1_resume_idempotent [where c = ex_config and e = ex_env and buf = ex_buf
      and w = W1 and totwritten = 0 and di = 0 and bi = 0 and w' = "fst (projr Z)"
      and tw' = "fst (snd (projr Z))" and di' = "fst (snd (snd (projr Z)))"
      and bi' = "snd (snd (snd (projr Z)))" and ?e1.0 = ex_env and v = ex_world and ?v1.0 = W1
      and ?e2.0 = E2]
  from i2 [THEN conjunct1, THEN mp, OF Z]
  have c: "write_total (new_events W1 (fst (projr Z))) = 0"
    by (simp add: ex fs1 [folded W1_def])
  have le: "expectedsz ex_config 0 0 \<le> file_size W1 (file_path ex_env ex_config 0 0)"
    by (simp add: ex fs1 [folded W1_def])
  from nl a ok pm b nl2 le c show ?thesis
    unfolding X_def Z_def W1_def E2_def by blast
qed

lemma plan_path_fresh:
  assumes "no_truncation e c"
    and "0 \<le> di" "di + 1 \<le> INT_MAX" "0 \<le> bi" "bi + 1 \<le> INT_MAX"
    and "t \<in> set (plan_from c tw1 di1 (bi + 1))"
    and "0 \<le> task_di t" "task_di t < INT_MAX" "task_bi t < INT_MAX"
  shows "task_path e c t \<noteq> file_path e c di bi"
proof
  assume eq: "task_path e c t = file_path e c di bi"
  from plan_from_bi_set [OF assms(6)] have b: "bi + 1 \<le> task_bi t"
    by simp
  with assms have "task_di t = di \<and> task_bi t = bi"
    by (intro file_path_inj [of e c]) (simp_all add: eq [unfolded task_path_def])
  with b show False by simp
qed

text \<open>
  The files and directories after a run that returned 0, when no path name was cut: the
  file of every task has grown to the expected size unless it was larger, nothing else
  has changed, and the directories of the tasks with \<open>bi < fsp_nsubdirs\<close> have been added.
\<close>

lemma fsp_loop_Ok_files:
  assumes "fsp_loop c e buf w totwritten di bi = (Ok, w', s)"
    and "no_truncation e c" "0 \<le> di" "0 \<le> bi"
  shows "(\<forall>t \<in> set (plan_from c totwritten di bi).
            files w' (task_path e c t) \<noteq> None
            \<and> file_size w' (task_path e c t) = max (file_size w (task_path e c t)) (task_size t))
    \<and> (\<forall>q. q \<notin> task_path e c ` set (plan_from c totwritten di bi) \<longrightarrow> files w' q = files w q)
    \<and> dirs w' = dirs w \<union> (\<lambda>t. dir_path e c (task_di t))
          ` {t \<in> set (plan_from c totwritten di bi). task_bi t < fsp_nsubdirs c}
    \<and> distinct (map (task_path e c) (plan_from c totwritten di bi))"
  using assms(1,3,4)
proof (induction w totwritten di bi rule: fsp_loop_induct [where c = c and e = e and buf = buf])
  case (step w totwritten di bi)
  show ?case
  proof (cases rule: fsp_loop_cases [where totwritten = totwritten and c = c and e = e
        and buf = buf and w = w and di = di and bi = bi])
    case finished
    with step.prems show ?thesis
      by (simp add: fsp_loop_done plan_from_Nil)
  next
    case (stop r0 w0)
    with step.prems loop_body_Inl_not_Ok [OF stop(2)] show ?thesis
      by (simp add: fsp_loop_stop)
  next
    case (continue w1 tw1 di1 bi1)
    with step.prems have rec: "fsp_loop c e buf w1 tw1 di1 bi1 = (Ok, w', s)"
      by (simp add: fsp_loop_next)
    from continue(2) have cnt: "tw1 = totwritten + expectedsz c totwritten bi"
      "di1 = c_rem (di + 1) (fsp_nsubdirs c)" "bi1 = bi + 1" "di + 1 \<le> INT_MAX" "bi + 1 \<le> INT_MAX"
      by (auto elim: loop_body_Inr)
    have d1: "0 \<le> di1" "0 \<le> bi1"
      using c_rem_range [of "di + 1" "fsp_nsubdirs c"] cnt step.prems by simp_all
    define p where "p = file_path e c di bi"
    define x where "x = expectedsz c totwritten bi"
    define rest where "rest = plan_from c tw1 di1 bi1"
    have pl: "plan_from c totwritten di bi = (di, bi, x) # rest"
      using plan_from_Cons [OF continue(1), of di bi] cnt(1-3) by (simp add: x_def rest_def)
    note ih = step.IH [OF continue rec d1, folded rest_def]
    obtain tw' di' bi' where s: "s = (tw', di', bi')"
      by (cases s)
    from fsp_loop_Ok_plan [OF rec [unfolded s]] d1
    have rng: "\<forall>t \<in> set rest. task_bi t < INT_MAX \<and> task_di t < INT_MAX \<and> 0 \<le> task_di t"
      by (simp add: rest_def)
    have fresh: "task_path e c t \<noteq> p" if "t \<in> set rest" for t
      unfolding p_def
      using assms(2) step.prems(2) cnt(4) step.prems(3) cnt(5) that [unfolded rest_def cnt(3)]
      using rng that by (intro plan_path_fresh) auto
    then have pfresh: "p \<notin> task_path e c ` set rest"
      by auto
    note b2 = loop_body_Inr_effect(2) [OF continue(2), folded p_def]
    note bs = loop_body_Inr_size [OF continue(2), folded p_def x_def]
    note bd = loop_body_Inr_effect(1) [OF continue(2)]
    from ih pfresh have keep: "files w' p = files w1 p"
      by blast
    have A: "files w' (task_path e c t) \<noteq> None
        \<and> file_size w' (task_path e c t) = max (file_size w (task_path e c t)) (task_size t)"
      if t: "t \<in> set ((di, bi, x) # rest)" for t
    proof (cases "t = (di, bi, x)")
      case True
      with keep bs show ?thesis
        by (simp add: file_size_def p_def)
    next
      case False
      with t have tr: "t \<in> set rest" by simp
      from fresh [OF tr] b2 have "files w1 (task_path e c t) = files w (task_path e c t)"
        by simp
      then have "file_size w1 (task_path e c t) = file_size w (task_path e c t)"
        by (simp add: file_size_def)
      with ih tr show ?thesis by simp
    qed
    have B: "files w' q = files w q" if "q \<notin> task_path e c ` set ((di, bi, x) # rest)" for q
    proof -
      from that have "q \<noteq> p" "q \<notin> task_path e c ` set rest"
        by (simp_all add: p_def)
      with ih b2 show ?thesis by simp
    qed
    have S: "{t \<in> set ((di, bi, x) # rest). task_bi t < fsp_nsubdirs c}
        = (if bi < fsp_nsubdirs c then {(di, bi, x)} else {})
          \<union> {t \<in> set rest. task_bi t < fsp_nsubdirs c}"
      by auto
    have C: "dirs w' = dirs w \<union> (\<lambda>t. dir_path e c (task_di t))
          ` {t \<in> set ((di, bi, x) # rest). task_bi t < fsp_nsubdirs c}"
      unfolding S using ih bd by (simp add: image_Un)
    have D: "distinct (map (task_path e c) ((di, bi, x) # rest))"
      using ih pfresh by (simp add: p_def)
    from A B C D show ?thesis
      unfolding pl by blast
  qed
qed

lemma plan_from_size_nonneg:
  "0 \<le> fsp_bulksize c \<Longrightarrow> t \<in> set (plan_from c totwritten di bi) \<Longrightarrow> 0 \<le> task_size t"
proof (induction c totwritten di bi rule: plan_from.induct)
  case (1 c totwritten di bi)
  show ?case
  proof (cases "totwritten < fsp_totsize c")
    case False
    with "1.prems" show ?thesis by (simp add: plan_from_Nil)
  next
    case True
    have "0 \<le> expectedsz c totwritten bi"
      using True "1.prems"(1) by (simp add: expectedsz_def MINc_def)
    with "1.IH" [OF True "1.prems"(1)] "1.prems"(2) True show ?thesis
      by (auto simp: plan_from_Cons)
  qed
qed

text \<open>
  \<^bold>\<open>C2\<close> (sizes after a run that returned 0).  A run that returns 0 for a total that is
  not negative leaves the loop with \<open>totwritten\<close> equal to the total.  When moreover no
  path name is cut and no file of the plan was there before with more than its expected
  size, every file of the plan is there afterwards with exactly its expected size, the
  files of the plan are distinct, no other file has changed, and the sizes of the files
  of the plan add up to the total.  On a tree without the files of the plan the condition
  on the tree says that no expected size is negative, which holds when the bulk size is
  not negative.
\<close>

theorem C2_sizes_sum_to_total:
  "(fspopulate c e buf v = (Ok, v') \<and> \<not> fsp_dryrun c \<and> 0 \<le> fsp_totsize c
      \<and> no_truncation e c
      \<and> (\<forall>t \<in> set (plan_from c 0 0 0). file_size v (task_path e c t) \<le> task_size t) \<longrightarrow>
      (\<forall>t \<in> set (plan_from c 0 0 0).
          files v' (task_path e c t) \<noteq> None \<and> file_size v' (task_path e c t) = task_size t)
      \<and> (\<forall>q. q \<notin> task_path e c ` set (plan_from c 0 0 0) \<longrightarrow> files v' q = files v q)
      \<and> distinct (map (task_path e c) (plan_from c 0 0 0))
      \<and> sum_list (map (\<lambda>t. file_size v' (task_path e c t)) (plan_from c 0 0 0))
          = fsp_totsize c)
   \<and> (fsp_loop c e buf w 0 0 0 = (Ok, w', tw', di', bi') \<and> 0 \<le> fsp_totsize c \<longrightarrow>
        tw' = fsp_totsize c)
   \<and> (0 \<le> fsp_bulksize c \<and> t \<in> set (plan_from c 0 0 0) \<longrightarrow> 0 \<le> task_size t)"
proof (intro conjI impI)
  assume "0 \<le> fsp_bulksize c \<and> t \<in> set (plan_from c 0 0 0)"
  then show "0 \<le> task_size t"
    by (auto intro: plan_from_size_nonneg)
next
  assume "fsp_loop c e buf w 0 0 0 = (Ok, w', tw', di', bi') \<and> 0 \<le> fsp_totsize c"
  then show "tw' = fsp_totsize c"
    using plan_from_sum [of 0 c 0 0] by (auto dest: fsp_loop_Ok_plan)
next
  assume a: "fspopulate c e buf v = (Ok, v') \<and> \<not> fsp_dryrun c \<and> 0 \<le> fsp_totsize c
      \<and> no_truncation e c
      \<and> (\<forall>t \<in> set (plan_from c 0 0 0). file_size v (task_path e c t) \<le> task_size t)"
  then have run: "fspopulate c e buf v = (Ok, v')" and nd: "\<not> fsp_dryrun c"
    and tot: "0 \<le> fsp_totsize c" and nt: "no_truncation e c"
    and small: "\<forall>t \<in> set (plan_from c 0 0 0). file_size v (task_path e c t) \<le> task_size t"
    by simp_all
  from run have main: "(\<forall>t \<in> set (plan_from c 0 0 0).
          files v' (task_path e c t) \<noteq> None \<and> file_size v' (task_path e c t) = task_size t)
      \<and> (\<forall>q. q \<notin> task_path e c ` set (plan_from c 0 0 0) \<longrightarrow> files v' q = files v q)
      \<and> distinct (map (task_path e c) (plan_from c 0 0 0))"
  proof (cases rule: fspopulate_cases)
    case dryrun
    with nd show ?thesis by simp
  next
    case rootfail
    then show ?thesis by simp
  next
    case (loop w1 tw1 di1 bi1)
    from fsp_loop_Ok_files [OF loop(6) nt] loop(4) small show ?thesis
      by (simp add: file_size_def)
  qed
  then show "\<forall>t \<in> set (plan_from c 0 0 0).
      files v' (task_path e c t) \<noteq> None \<and> file_size v' (task_path e c t) = task_size t"
    and "\<forall>q. q \<notin> task_path e c ` set (plan_from c 0 0 0) \<longrightarrow> files v' q = files v q"
    and "distinct (map (task_path e c) (plan_from c 0 0 0))"
    by simp_all
  from main have "sum_list (map (\<lambda>t. file_size v' (task_path e c t)) (plan_from c 0 0 0))
      = sum_list (map task_size (plan_from c 0 0 0))"
    by (intro arg_cong [where f = sum_list] map_cong) auto
  with plan_from_sum [of 0 c 0 0] tot
  show "sum_list (map (\<lambda>t. file_size v' (task_path e c t)) (plan_from c 0 0 0)) = fsp_totsize c"
    by simp
qed

theorem C2_sizes_sum_to_total_witness:
  "fst (fspopulate ex_config ex_env ex_buf ex_world) = Ok \<and> \<not> fsp_dryrun ex_config
   \<and> 0 \<le> fsp_totsize ex_config \<and> 0 \<le> fsp_bulksize ex_config
   \<and> no_truncation ex_env ex_config
   \<and> list_all (\<lambda>t. file_size ex_world (task_path ex_env ex_config t) \<le> task_size t)
       (plan_from ex_config 0 0 0)
   \<and> sum_list (map (\<lambda>t. file_size (snd (fspopulate ex_config ex_env ex_buf ex_world))
          (task_path ex_env ex_config t)) (plan_from ex_config 0 0 0)) = fsp_totsize ex_config
   \<and> fst (fsp_loop ex_config ex_env ex_buf ex_world 0 0 0) = Ok
   \<and> fst (snd (snd (fsp_loop ex_config ex_env ex_buf ex_world 0 0 0))) = fsp_totsize ex_config
   \<and> (0, 0, 2) \<in> set (plan_from ex_config 0 0 0) \<and> (0::int) \<le> task_size (0, 0, 2)"
proof -
  define V where "V = snd (fspopulate ex_config ex_env ex_buf ex_world)"
  define Y where "Y = fsp_loop ex_config ex_env ex_buf ex_world 0 0 0"
  have ok: "fst (fspopulate ex_config ex_env ex_buf ex_world) = Ok"
    by code_simp
  then have run: "fspopulate ex_config ex_env ex_buf ex_world = (Ok, V)"
    by (simp add: V_def prod_eq_iff)
  have c: "\<not> fsp_dryrun ex_config" "0 \<le> fsp_totsize ex_config" "0 \<le> fsp_bulksize ex_config"
    "no_truncation ex_env ex_config"
    by (simp_all add: ex_config_def ex_env_def no_truncation_def)
  have small: "list_all (\<lambda>t. file_size ex_world (task_path ex_env ex_config t) \<le> task_size t)
       (plan_from ex_config 0 0 0)"
    by code_simp
  then have small': "\<forall>t \<in> set (plan_from ex_config 0 0 0).
      file_size ex_world (task_path ex_env ex_config t) \<le> task_size t"
    by (simp add: list_all_iff)
  have lok: "fst (fsp_loop ex_config ex_env ex_buf ex_world 0 0 0) = Ok"
    by code_simp
  then have Y: "fsp_loop ex_config ex_env ex_buf ex_world 0 0 0
      = (Ok, fst (snd Y), fst (snd (snd Y)), fst (snd (snd (snd Y))), snd (snd (snd (snd Y))))"
    by (simp add: Y_def prod_eq_iff)
  have mem: "(0, 0, 2) \<in> set (plan_from ex_config 0 0 0)"
    by code_simp
  note inst = C2_sizes_sum_to_total [where c = ex_config and e = ex_env and buf = ex_buf
      and v = ex_world and v' = V and w = ex_world and w' = "fst (snd Y)"
      and tw' = "fst (snd (snd Y))" and di' = "fst (snd (snd (snd Y)))"
      and bi' = "snd (snd (snd (snd Y)))" and t = "(0, 0, 2)"]
  from inst [THEN conjunct1, THEN mp, OF conjI [OF run conjI [OF c(1) conjI [OF c(2)
      conjI [OF c(4) small']]]]]
  have s: "sum_list (map (\<lambda>t. file_size V (task_path ex_env ex_config t))
      (plan_from ex_config 0 0 0)) = fsp_totsize ex_config"
    by blast
  from inst [THEN conjunct2, THEN conjunct1, THEN mp, OF conjI [OF Y c(2)]]
  have t: "fst (snd (snd Y)) = fsp_totsize ex_config" .
  from inst [THEN conjunct2, THEN conjunct2, THEN mp, OF conjI [OF c(3) mem]]
  have n: "(0::int) \<le> task_size (0, 0, 2)" .
  from ok c small s lok t mem n show ?thesis
    unfolding V_def Y_def by blast
qed

theorem C2_counterexample:
  "fst (fspopulate ex_config ex_env ex_buf ex_big_world) = Ok
   \<and> \<not> fsp_dryrun ex_config \<and> 0 \<le> fsp_totsize ex_config \<and> 0 \<le> fsp_bulksize ex_config
   \<and> no_truncation ex_env ex_config
   \<and> plan_from ex_config 0 0 0 = [(0, 0, 2), (1, 1, 2), (0, 2, 1)]
   \<and> file_size (snd (fspopulate ex_config ex_env ex_buf ex_big_world))
         (file_path ex_env ex_config 0 0) = 3
   \<and> file_size (snd (fspopulate ex_config ex_env ex_buf ex_big_world))
         (file_path ex_env ex_config 1 1) = 2
   \<and> file_size (snd (fspopulate ex_config ex_env ex_buf ex_big_world))
         (file_path ex_env ex_config 0 2) = 1
   \<and> fsp_totsize ex_config = 5"
proof -
  have ok: "fst (fspopulate ex_config ex_env ex_buf ex_big_world) = Ok"
    by code_simp
  have c: "\<not> fsp_dryrun ex_config" "0 \<le> fsp_totsize ex_config" "0 \<le> fsp_bulksize ex_config"
    "no_truncation ex_env ex_config" "fsp_totsize ex_config = 5"
    by (simp_all add: ex_config_def ex_env_def no_truncation_def)
  have p: "plan_from ex_config 0 0 0 = [(0, 0, 2), (1, 1, 2), (0, 2, 1)]"
    by code_simp
  have s: "file_size (snd (fspopulate ex_config ex_env ex_buf ex_big_world))
         (file_path ex_env ex_config 0 0) = 3"
    "file_size (snd (fspopulate ex_config ex_env ex_buf ex_big_world))
         (file_path ex_env ex_config 1 1) = 2"
    "file_size (snd (fspopulate ex_config ex_env ex_buf ex_big_world))
         (file_path ex_env ex_config 0 2) = 1"
    by code_simp+
  from ok c p s show ?thesis
    by blast
qed












end
